theory Spec2Isabelle
  imports Main "HOL-Library.Word" "HOL-Library.Sublist"
begin

section \<open>The modified-file generator of tools/modfile.py\<close>

text \<open>
  The program reads an original file and writes a modified version of it: cycles of
  copied bytes, inserted bytes (read from /dev/urandom) and deleted (skipped) bytes. The
  lengths of the three runs of a cycle are drawn from a seeded pseudo random generator.

  The model follows the source function by function. Mutation of the generator object
  is explicit state passing, a raised exception is the left summand of a sum type, and
  the two files are the lists of bytes that they still have to deliver.
\<close>

subsection \<open>Bytes, files and exceptions\<close>

type_synonym byte = "8 word"

datatype error =
  ZeroDivisionError | OverflowError | MemoryError | ValueError | IndexError | TypeError
  | SystemExit int

text \<open>
  \<^verbatim>\<open>f.read(n)\<close> of a binary file object whose remaining content is \<open>f\<close>, when the call
  returns: up to \<open>n\<close> bytes, fewer at the end of the file, and the whole rest for a
  negative \<open>n\<close>. The result is the data read and the content that remains. The list for
  /dev/urandom holds the bytes which the device delivers during the run. The lengths for
  which the call raises an exception instead are those of \<open>read_raises\<close> below.
\<close>

definition read :: "byte list \<Rightarrow> int \<Rightarrow> byte list \<times> byte list" where
  "read f n = (if n < 0 then (f, []) else (take (nat n) f, drop (nat n) f))"

text \<open>
  Both files are buffered readers (\<^verbatim>\<open>sys.stdin.buffer\<close> and the result of \<^verbatim>\<open>open\<close> in mode
  \<^verbatim>\<open>'rb'\<close>). On a 64-bit CPython their \<^verbatim>\<open>read(n)\<close> raises \<^verbatim>\<open>OverflowError\<close> for an \<open>n\<close> that is
  not a machine integer or for which a byte string is too large, \<^verbatim>\<open>ValueError\<close> for another
  \<open>n\<close> below \<open>-1\<close>, and \<^verbatim>\<open>MemoryError\<close> when the buffer of \<open>n\<close> bytes, which is allocated
  before anything is read, is not to be had. \<open>lim\<close> is the largest length for which the
  machine provides the buffer.
\<close>

definition read_raises :: "int \<Rightarrow> int \<Rightarrow> error option" where
  "read_raises lim n =
     (if n < - (2 ^ 63) then Some OverflowError
      else if n < - 1 then Some ValueError
      else if 2 ^ 63 - 33 \<le> n then Some OverflowError
      else if lim < n then Some MemoryError
      else None)"

text \<open>
  The device /dev/urandom has no end: a read of everything that is left, which a length
  of \<open>-1\<close> asks for, collects bytes until the memory is exhausted.
\<close>

definition urandom_read_raises :: "int \<Rightarrow> int \<Rightarrow> error option" where
  "urandom_read_raises lim n = (if n = - 1 then Some MemoryError else read_raises lim n)"

subsection \<open>The statistics accumulator\<close>

text \<open>
  Modelled from the spec: the class \<^verbatim>\<open>Sample\<close> of the module \<^verbatim>\<open>stats1\<close>, which modfile.py
  imports and which is not among the sources. The specification describes it as a running
  count, sum and sum of squares of a series, where \<^verbatim>\<open>add(value)\<close> increments the count by
  one, the sum by the value and the sum of squares by the square of the value. The source
  reads the attribute \<^verbatim>\<open>sum\<close>; it is the field \<open>sum_s\<close> here.
\<close>

record Sample =
  count_s :: int
  sum_s :: int
  sum2_s :: int

text \<open>
  Modelled from the spec: the accumulator which \<^verbatim>\<open>Sample()\<close> constructs; nothing is counted
  and both sums are zero.
\<close>

definition Sample_new :: Sample where
  "Sample_new = \<lparr>count_s = 0, sum_s = 0, sum2_s = 0\<rparr>"

text \<open>
  Modelled from the spec: the method \<^verbatim>\<open>add\<close> of \<^verbatim>\<open>Sample\<close>, which is not among the sources:
  the count grows by one, the sum by the value, the sum of squares by its square.
\<close>

definition add :: "Sample \<Rightarrow> int \<Rightarrow> Sample" where
  "add s v = \<lparr>count_s = count_s s + 1, sum_s = sum_s s + v, sum2_s = sum2_s s + v * v\<rparr>"

subsection \<open>The pseudo random generator\<close>

text \<open>
  The module \<^verbatim>\<open>random\<close> is the interpreter's, and its exponential variate is a floating
  point computation; both stay a parameter of the model. \<open>Random R seed\<close> is the state
  of \<^verbatim>\<open>random.Random(seed)\<close>, and \<open>expovariate R r m\<close> is the integer
  \<^verbatim>\<open>int(r.expovariate(1.0/m))\<close> drawn in state \<open>r\<close> for the mean \<open>m\<close>, together with the
  state after the draw. The rates \<^verbatim>\<open>clambd\<close>, \<^verbatim>\<open>ilambd\<close> and \<^verbatim>\<open>dlambd\<close> of the source
  are the reciprocals of the means and are not stored. The means are integers, as the
  main program passes them. The variate is a finite number for every mean of at most
  \<open>4 * 10 ^ 306\<close> in absolute value (it is at most \<open>53 * ln 2\<close> times the mean); for a
  larger mean it can be infinite, and \<^verbatim>\<open>int\<close> then raises an error, which the parameter
  does not express.
\<close>

record 'r random =
  Random :: "int \<Rightarrow> 'r"
  expovariate :: "'r \<Rightarrow> int \<Rightarrow> int \<times> 'r"

subsection \<open>The generator\<close>

record 'r ModifiedFileData =
  dat :: "byte list"
  ins :: "byte list"
  clen :: int
  ilen :: int
  dlen :: int
  seed :: int
  mod_r :: 'r
  cpystats :: Sample
  insstats :: Sample
  delstats :: Sample
  cpy_n :: int
  ins_n :: int
  del_n :: int

text \<open>
  \<^verbatim>\<open>initcycle\<close>: the copy length is at least one; \<^verbatim>\<open>self.ilen and int(...)\<close> is
  \<^verbatim>\<open>self.ilen\<close> itself when that is zero, and then nothing is drawn.
\<close>

definition initcycle :: "'r random \<Rightarrow> 'r ModifiedFileData \<Rightarrow> 'r ModifiedFileData" where
  "initcycle R g =
     (case expovariate R (mod_r g) (clen g) of (c, r1) \<Rightarrow>
      case (if ilen g = 0 then (ilen g, r1) else expovariate R r1 (ilen g)) of (i, r2) \<Rightarrow>
      case (if dlen g = 0 then (dlen g, r2) else expovariate R r2 (dlen g)) of (d, r3) \<Rightarrow>
        g\<lparr>mod_r := r3, cpy_n := max 1 c, ins_n := i, del_n := d\<rparr>)"

definition reset :: "'r random \<Rightarrow> 'r ModifiedFileData \<Rightarrow> 'r ModifiedFileData" where
  "reset R g =
     initcycle R (g\<lparr>mod_r := Random R (seed g), cpystats := Sample_new,
                    insstats := Sample_new, delstats := Sample_new\<rparr>)"

text \<open>
  The conversion of an integer to a floating point number, which \<^verbatim>\<open>1.0/clen\<close> begins with,
  raises \<^verbatim>\<open>OverflowError\<close> for an integer that rounds to \<open>2 ^ 1024\<close> or beyond.
\<close>

definition float_overflow :: "int \<Rightarrow> bool" where
  "float_overflow m = (2 ^ 1024 - 2 ^ 970 \<le> \<bar>m\<bar>)"

text \<open>
  The constructor. \<open>infile\<close> is the content of the original file and \<open>urandom\<close> the bytes
  that the file opened on /dev/urandom delivers. An argument that is not supplied is
  \<open>None\<close>; the caller passes \<open>1\<close> for a seed it does not supply. \<^verbatim>\<open>1.0/clen\<close> raises for
  a zero \<open>clen\<close>, while \<^verbatim>\<open>ilen and 1.0/ilen\<close> does not divide by a zero \<open>ilen\<close>; each of
  the three divisions raises for a mean beyond the range of floating point numbers.
\<close>

definition init ::
  "'r random \<Rightarrow> byte list \<Rightarrow> byte list \<Rightarrow> int \<Rightarrow> int option \<Rightarrow> int option \<Rightarrow> int
     \<Rightarrow> error + 'r ModifiedFileData" where
  "init R infile urandom clen0 ilen0 dlen0 seed0 =
     (let ilen1 = (case ilen0 of None \<Rightarrow> clen0 | Some i \<Rightarrow> i);
          dlen1 = (case dlen0 of None \<Rightarrow> clen0 | Some d \<Rightarrow> d)
      in if clen0 = 0 then Inl ZeroDivisionError
         else if float_overflow clen0 then Inl OverflowError
         else if ilen1 \<noteq> 0 \<and> float_overflow ilen1 then Inl OverflowError
         else if dlen1 \<noteq> 0 \<and> float_overflow dlen1 then Inl OverflowError
         else Inr (reset R
           \<lparr>dat = infile, ins = urandom, clen = clen0, ilen = ilen1, dlen = dlen1,
            seed = seed0, mod_r = Random R seed0, cpystats = Sample_new,
            insstats = Sample_new, delstats = Sample_new,
            cpy_n = 0, ins_n = 0, del_n = 0\<rparr>))"

text \<open>
  \<^verbatim>\<open>getdata\<close>, when none of its reads raises an exception, returns the chunk and the
  generator after the call.
\<close>

definition getdata :: "'r random \<Rightarrow> 'r ModifiedFileData \<Rightarrow> byte list \<times> 'r ModifiedFileData" where
  "getdata R g =
     (case read (dat g) (cpy_n g) of (data, dat1) \<Rightarrow>
      if data \<noteq> [] then
        (case read (ins g) (ins_n g) of (rnd, ins1) \<Rightarrow>
         case read dat1 (del_n g) of (skip, dat2) \<Rightarrow>
           (data @ rnd,
            initcycle R (g\<lparr>dat := dat2, ins := ins1,
                           cpystats := add (cpystats g) (int (length data)),
                           insstats := add (insstats g) (ins_n g),
                           delstats := add (delstats g) (int (length skip))\<rparr>)))
      else (data, g\<lparr>dat := dat1\<rparr>))"

definition inp_c :: "'r ModifiedFileData \<Rightarrow> int" where
  "inp_c g = sum_s (cpystats g) + sum_s (delstats g)"

definition tot_c :: "'r ModifiedFileData \<Rightarrow> int" where
  "tot_c g = sum_s (cpystats g) + sum_s (insstats g)"

definition dup_c :: "'r ModifiedFileData \<Rightarrow> int" where
  "dup_c g = sum_s (cpystats g)"

text \<open>
  The exception that a call of \<^verbatim>\<open>getdata\<close> in state \<open>g\<close> raises, if any: that of the copy
  read, and after a copy read that is not empty that of the insert read or else that of
  the delete read.
\<close>

definition getdata_raises :: "int \<Rightarrow> 'r ModifiedFileData \<Rightarrow> error option" where
  "getdata_raises lim g =
     (case read_raises lim (cpy_n g) of
        Some e \<Rightarrow> Some e
      | None \<Rightarrow>
          if fst (read (dat g) (cpy_n g)) \<noteq> [] then
            (case urandom_read_raises lim (ins_n g) of
               Some e \<Rightarrow> Some e
             | None \<Rightarrow> read_raises lim (del_n g))
          else None)"

text \<open>\<^verbatim>\<open>getdata\<close> with its exceptions.\<close>

definition getdata_checked ::
  "int \<Rightarrow> 'r random \<Rightarrow> 'r ModifiedFileData \<Rightarrow> error + byte list \<times> 'r ModifiedFileData" where
  "getdata_checked lim R g =
     (case getdata_raises lim g of Some e \<Rightarrow> Inl e | None \<Rightarrow> Inr (getdata R g))"

subsection \<open>Repeated calls and the main loop\<close>

text \<open>The generator after \<open>n\<close> calls of \<^verbatim>\<open>getdata\<close>, and the chunks these calls return.\<close>

fun calls :: "'r random \<Rightarrow> nat \<Rightarrow> 'r ModifiedFileData \<Rightarrow> 'r ModifiedFileData" where
  "calls R 0 g = g"
| "calls R (Suc n) g = calls R n (snd (getdata R g))"

fun chunks :: "'r random \<Rightarrow> nat \<Rightarrow> 'r ModifiedFileData \<Rightarrow> byte list list" where
  "chunks R 0 g = []"
| "chunks R (Suc n) g = fst (getdata R g) # chunks R n (snd (getdata R g))"

text \<open>
  The generator after \<open>n\<close> calls of \<^verbatim>\<open>getdata\<close> with its exceptions: the first exception
  ends the calls.
\<close>

fun calls_checked ::
  "int \<Rightarrow> 'r random \<Rightarrow> nat \<Rightarrow> 'r ModifiedFileData \<Rightarrow> error + 'r ModifiedFileData" where
  "calls_checked lim R 0 g = Inr g"
| "calls_checked lim R (Suc n) g =
     (case getdata_checked lim R g of
        Inl e \<Rightarrow> Inl e
      | Inr (data, g') \<Rightarrow> calls_checked lim R n g')"

text \<open>
  The values that one call of \<^verbatim>\<open>getdata\<close> in state \<open>g\<close> passes to \<^verbatim>\<open>cpystats.add\<close>,
  \<^verbatim>\<open>insstats.add\<close> and \<^verbatim>\<open>delstats.add\<close>: nothing when the copy read is empty.
\<close>

definition recorded :: "'r ModifiedFileData \<Rightarrow> (int \<times> int \<times> int) list" where
  "recorded g =
     (case read (dat g) (cpy_n g) of (data, dat1) \<Rightarrow>
      if data \<noteq> [] then
        [(int (length data), ins_n g, int (length (fst (read dat1 (del_n g)))))]
      else [])"

fun records :: "'r random \<Rightarrow> nat \<Rightarrow> 'r ModifiedFileData \<Rightarrow> (int \<times> int \<times> int) list" where
  "records R 0 g = []"
| "records R (Suc n) g = recorded g @ records R n (snd (getdata R g))"

text \<open>
  The loop of the main program: \<^verbatim>\<open>data = gen.getdata()\<close>, and while the chunk is not
  empty it is written and the next one is fetched. \<open>out\<close> is what has been written.
  The loop ends: the rest of the original gets shorter with every chunk that is not empty.
  It is the loop of calls none of which raises an exception, as \<open>getdata\<close> is.
\<close>

function drive ::
  "'r random \<Rightarrow> 'r ModifiedFileData \<Rightarrow> byte list \<Rightarrow> byte list \<times> 'r ModifiedFileData" where
  "drive R g out =
     (if fst (getdata R g) \<noteq> [] then drive R (snd (getdata R g)) (out @ fst (getdata R g))
      else (out, snd (getdata R g)))"
  by pat_completeness auto
termination
  by (relation "measure (\<lambda>(R, g, out). length (dat g))")
    (auto simp: getdata_def read_def initcycle_def split: prod.splits if_splits)

declare drive.simps [simp del]

text \<open>A run: construct the generator, then call \<^verbatim>\<open>getdata\<close> until it returns empty.\<close>

definition run ::
  "'r random \<Rightarrow> byte list \<Rightarrow> byte list \<Rightarrow> int \<Rightarrow> int option \<Rightarrow> int option \<Rightarrow> int
     \<Rightarrow> error + byte list \<times> 'r ModifiedFileData" where
  "run R infile urandom clen0 ilen0 dlen0 seed0 =
     (case init R infile urandom clen0 ilen0 dlen0 seed0 of
        Inl e \<Rightarrow> Inl e
      | Inr gen \<Rightarrow> Inr (drive R gen []))"

subsection \<open>The report\<close>

text \<open>
  \<^verbatim>\<open>__repr__\<close> formats the means and the seed, and \<^verbatim>\<open>__str__\<close> formats that text, the
  three byte counts, the percentage of duplicate bytes and the three accumulators.
  \<^verbatim>\<open>__str__\<close> builds the argument tuple of the format before it formats anything, and the
  tuple holds \<^verbatim>\<open>100.0 * self.dup_c / self.tot_c\<close>. The model keeps the numbers that go
  into the text, not the text.
\<close>

definition repr_gen :: "'r ModifiedFileData \<Rightarrow> int \<times> int \<times> int \<times> int" where
  "repr_gen g = (clen g, ilen g, dlen g, seed g)"

record report =
  rep_repr :: "int \<times> int \<times> int \<times> int"
  rep_inp :: int
  rep_tot :: int
  rep_dup :: int
  rep_cpy :: Sample
  rep_ins :: Sample
  rep_del :: Sample

definition str_gen :: "'r ModifiedFileData \<Rightarrow> error + report" where
  "str_gen g =
     (if tot_c g = 0 then Inl ZeroDivisionError
      else Inr \<lparr>rep_repr = repr_gen g, rep_inp = inp_c g, rep_tot = tot_c g, rep_dup = dup_c g,
                rep_cpy = cpystats g, rep_ins = insstats g, rep_del = delstats g\<rparr>)"

subsection \<open>The command line\<close>

text \<open>
  \<^verbatim>\<open>int(s)\<close> on an ASCII string: white space is stripped at both ends, a sign may come
  first, then decimal digits, where single underscores may stand between digits.
  Anything else raises \<^verbatim>\<open>ValueError\<close>. (A limit of the interpreter on the number of digits
  is not modelled.)
\<close>

definition is_digit :: "char \<Rightarrow> bool" where
  "is_digit c = (c \<in> set ''0123456789'')"

definition digit_val :: "char \<Rightarrow> int" where
  "digit_val c = int (of_char c) - 48"

definition is_space :: "char \<Rightarrow> bool" where
  "is_space c = (of_char c \<in> set [9, 10, 11, 12, 13, 32 :: nat])"

definition strip :: "string \<Rightarrow> string" where
  "strip s = rev (dropWhile is_space (rev (dropWhile is_space s)))"

fun digits :: "int \<Rightarrow> string \<Rightarrow> error + int" where
  "digits a [] = Inr a"
| "digits a [c] = (if is_digit c then Inr (10 * a + digit_val c) else Inl ValueError)"
| "digits a (c # d # cs) =
     (if is_digit c then digits (10 * a + digit_val c) (d # cs)
      else if c = CHR ''_'' \<and> is_digit d then digits (10 * a + digit_val d) cs
      else Inl ValueError)"

definition unsigned :: "string \<Rightarrow> error + int" where
  "unsigned s =
     (case s of [] \<Rightarrow> Inl ValueError
      | c # cs \<Rightarrow> if is_digit c then digits (digit_val c) cs else Inl ValueError)"

definition py_int :: "string \<Rightarrow> error + int" where
  "py_int s =
     (case strip s of
        [] \<Rightarrow> Inl ValueError
      | c # cs \<Rightarrow>
          if c = CHR ''-'' then (case unsigned cs of Inl e \<Rightarrow> Inl e | Inr v \<Rightarrow> Inr (- v))
          else if c = CHR ''+'' then unsigned cs
          else unsigned (c # cs))"

text \<open>\<^verbatim>\<open>getlen\<close>: \<^verbatim>\<open>arg[-1]\<close> raises \<^verbatim>\<open>IndexError\<close> on the empty string.\<close>

definition getlen :: "string \<Rightarrow> error + int" where
  "getlen arg =
     (if arg = [] then Inl IndexError
      else if last arg \<in> set ''kK'' then
        (case py_int (butlast arg) of Inl e \<Rightarrow> Inl e | Inr v \<Rightarrow> Inr (v * 1024))
      else if last arg \<in> set ''mM'' then
        (case py_int (butlast arg) of Inl e \<Rightarrow> Inl e | Inr v \<Rightarrow> Inr (v * 1024 * 1024))
      else if last arg \<in> set ''gG'' then
        (case py_int (butlast arg) of Inl e \<Rightarrow> Inl e | Inr v \<Rightarrow> Inr (v * 1024 * 1024 * 1024))
      else py_int arg)"

definition getarg :: "string list \<Rightarrow> nat \<Rightarrow> string option \<Rightarrow> string option" where
  "getarg argv n dflt = (if length argv > n then Some (argv ! n) else dflt)"

text \<open>
  The main program: \<open>argv\<close> is the command line, \<open>stdin\<close> the original file. \<^verbatim>\<open>usage(0)\<close>
  ends the program with \<^verbatim>\<open>sys.exit(0)\<close>. An argument that is missing is \<open>None\<close>, on
  which \<^verbatim>\<open>getlen\<close> would raise \<^verbatim>\<open>TypeError\<close>. The constructor is called without a seed, which
  is then 1. The result is what was written to the standard output and the report written
  to the standard error; when an exception ends the program, the result is the exception.
\<close>

definition main ::
  "'r random \<Rightarrow> string list \<Rightarrow> byte list \<Rightarrow> byte list \<Rightarrow> error + byte list \<times> report" where
  "main R argv stdin urandom =
     (let arg1 = getarg argv 1 None in
      if arg1 \<in> set [Some ''-?'', Some ''-h'', Some ''--help'', None] then Inl (SystemExit 0)
      else
        (let arg2 = getarg argv 2 arg1; arg3 = getarg argv 3 arg2 in
         case (case arg1 of None \<Rightarrow> Inl TypeError | Some a \<Rightarrow> getlen a) of
           Inl e \<Rightarrow> Inl e
         | Inr clen0 \<Rightarrow>
         (case (case arg2 of None \<Rightarrow> Inl TypeError | Some a \<Rightarrow> getlen a) of
           Inl e \<Rightarrow> Inl e
         | Inr ilen0 \<Rightarrow>
         (case (case arg3 of None \<Rightarrow> Inl TypeError | Some a \<Rightarrow> getlen a) of
           Inl e \<Rightarrow> Inl e
         | Inr dlen0 \<Rightarrow>
         (case run R stdin urandom clen0 (Some ilen0) (Some dlen0) 1 of
            Inl e \<Rightarrow> Inl e
          | Inr (out, gen) \<Rightarrow>
              (case str_gen gen of Inl e \<Rightarrow> Inl e | Inr rep \<Rightarrow> Inr (out, rep)))))))"

subsection \<open>A concrete generator for examples\<close>

text \<open>
  The first sixteen values of \<^verbatim>\<open>-log(1.0 - random())\<close> that \<^verbatim>\<open>random.Random(1)\<close> of CPython 3
  produces, times \<open>10\<^sup>9\<close> and rounded. For the means 4, 50 and 100 the \<open>k\<close>-th draw
  \<^verbatim>\<open>int(expovariate(1.0/m))\<close> is the integer part of \<open>m\<close> times the \<open>k\<close>-th value; the first
  draw for the mean \<open>10\<^sup>2\<^sup>0\<close> is 14429106410950920192. The state is the seed and the number
  of draws made. For another mean or seed and past the table the draw is 0; the examples
  stay within the table.
\<close>

definition draws1 :: "int list" where
  "draws1 = [144291064, 1880156265, 1442968925, 294463717, 684058780, 596912092,
             1054383864, 1554586872, 98561003, 28757025, 1806457583, 566985245,
             1436662115, 2108274, 589485056, 1278480973]"

definition random1 :: "(int \<times> nat) random" where
  "random1 =
     \<lparr>Random = (\<lambda>s. (s, 0)),
      expovariate = (\<lambda>(s, k) m.
        (if s = 1 \<and> k < length draws1 \<and> m \<in> set [4, 50, 100]
           then (draws1 ! k * m) div 1000000000
         else if s = 1 \<and> k = 0 \<and> m = 10 ^ 20 then 14429106410950920192
         else 0,
         (s, Suc k)))\<rparr>"

text \<open>
  The generator that the constructor returns for the two files, the mean 4 for all three
  lengths and the seed 1, with \<open>random1\<close>. Its first cycles are: copy 1, insert 7,
  delete 5; copy 1, insert 2, delete 2; copy 4, insert 6, delete 0.
\<close>

definition gen1 :: "byte list \<Rightarrow> byte list \<Rightarrow> (int \<times> nat) ModifiedFileData" where
  "gen1 infile urandom = projr (init random1 infile urandom 4 None None 1)"

definition dat1 :: "byte list" where
  "dat1 = [1, 2, 3, 4, 5, 6, 7, 8, 9, 10]"

text \<open>The same with the insert mean 0, and with the delete mean 0.\<close>

definition gen1_no_ins :: "byte list \<Rightarrow> byte list \<Rightarrow> (int \<times> nat) ModifiedFileData" where
  "gen1_no_ins infile urandom = projr (init random1 infile urandom 4 (Some 0) None 1)"

definition gen1_no_del :: "byte list \<Rightarrow> byte list \<Rightarrow> (int \<times> nat) ModifiedFileData" where
  "gen1_no_del infile urandom = projr (init random1 infile urandom 4 None (Some 0) 1)"

text \<open>
  The generator \<open>gen1\<close> after two calls on the ten bytes \<open>dat1\<close>: one byte of the
  original is left, and the pending lengths are copy 4, insert 6, delete 0.
\<close>

definition gen1_at_end :: "byte list \<Rightarrow> (int \<times> nat) ModifiedFileData" where
  "gen1_at_end urandom = calls random1 2 (gen1 dat1 urandom)"

text \<open>
  The generator for the copy mean \<open>10\<^sup>2\<^sup>0\<close>, no insertion and no deletion: its first copy
  length is 14429106410950920192, more than the largest machine integer.
\<close>

definition gen1_huge :: "byte list \<Rightarrow> byte list \<Rightarrow> (int \<times> nat) ModifiedFileData" where
  "gen1_huge infile urandom = projr (init random1 infile urandom (10 ^ 20) (Some 0) (Some 0) 1)"

subsection \<open>The value of a string of decimal digits\<close>

text \<open>Positional notation: the first digit counts most.\<close>

fun decimal :: "string \<Rightarrow> int" where
  "decimal [] = 0"
| "decimal (c # cs) = digit_val c * 10 ^ length cs + decimal cs"

section \<open>Basic facts\<close>

lemma read_empty_iff: "fst (read f n) = [] \<longleftrightarrow> f = [] \<or> n = 0"
  by (auto simp: read_def)

lemma read_append: "fst (read f n) @ snd (read f n) = f"
  by (simp add: read_def)

lemma read_length: "length (fst (read f n)) + length (snd (read f n)) = length f"
  by (auto simp: read_def)

lemma initcycle_keeps [simp]:
  "dat (initcycle R g) = dat g" "ins (initcycle R g) = ins g"
  "clen (initcycle R g) = clen g" "ilen (initcycle R g) = ilen g"
  "dlen (initcycle R g) = dlen g" "seed (initcycle R g) = seed g"
  "cpystats (initcycle R g) = cpystats g" "insstats (initcycle R g) = insstats g"
  "delstats (initcycle R g) = delstats g"
  by (simp_all add: initcycle_def split: prod.splits)

lemma initcycle_cpy_n: "1 \<le> cpy_n (initcycle R g)"
  by (simp add: initcycle_def split: prod.splits)

lemma initcycle_ins_n: "ilen g = 0 \<Longrightarrow> ins_n (initcycle R g) = 0"
  by (simp add: initcycle_def split: prod.splits)

lemma initcycle_del_n: "dlen g = 0 \<Longrightarrow> del_n (initcycle R g) = 0"
  by (simp add: initcycle_def split: prod.splits)

lemma getdata_empty: "fst (getdata R g) = [] \<Longrightarrow> snd (getdata R g) = g"
  by (auto simp: getdata_def read_def split: prod.splits if_splits)

lemma getdata_empty_iff: "fst (getdata R g) = [] \<longleftrightarrow> fst (read (dat g) (cpy_n g)) = []"
  by (auto simp: getdata_def split: prod.splits)

lemma getdata_advances:
  "fst (getdata R g) \<noteq> [] \<Longrightarrow> length (dat (snd (getdata R g))) < length (dat g)"
  by (auto simp: getdata_def read_def split: prod.splits if_splits)

lemma getdata_keeps [simp]:
  "clen (snd (getdata R g)) = clen g" "ilen (snd (getdata R g)) = ilen g"
  "dlen (snd (getdata R g)) = dlen g" "seed (snd (getdata R g)) = seed g"
  by (simp_all add: getdata_def split: prod.splits)

lemma calls_keeps [simp]:
  "clen (calls R n g) = clen g" "ilen (calls R n g) = ilen g"
  "dlen (calls R n g) = dlen g" "seed (calls R n g) = seed g"
  by (induction n arbitrary: g; simp)+

lemma calls_Suc_back: "calls R (Suc n) g = snd (getdata R (calls R n g))"
  by (induction n arbitrary: g) simp_all

lemma calls_fixed: "snd (getdata R g) = g \<Longrightarrow> calls R n g = g"
  by (induction n) simp_all

lemma float_overflow_small: "\<bar>m\<bar> \<le> 4 * 10 ^ 306 \<Longrightarrow> \<not> float_overflow m"
proof -
  have "(4 * 10 ^ 306 :: int) < 2 ^ 1024 - 2 ^ 970" by simp
  then show "\<bar>m\<bar> \<le> 4 * 10 ^ 306 \<Longrightarrow> \<not> float_overflow m"
    by (simp add: float_overflow_def)
qed

lemma float_overflow_examples [simp]:
  "\<not> float_overflow 0" "\<not> float_overflow 4" "\<not> float_overflow 10"
  "\<not> float_overflow 50" "\<not> float_overflow 100" "\<not> float_overflow (10 ^ 20)"
  "float_overflow (10 ^ 400)"
  by (simp_all add: float_overflow_def)

lemma init_Inr:
  assumes "clen0 \<noteq> 0" and "\<not> float_overflow clen0"
    and "\<not> float_overflow (case ilen0 of None \<Rightarrow> clen0 | Some i \<Rightarrow> i)"
    and "\<not> float_overflow (case dlen0 of None \<Rightarrow> clen0 | Some d \<Rightarrow> d)"
  shows "\<exists>g. init R infile urandom clen0 ilen0 dlen0 seed0 = Inr g"
  using assms by (simp add: init_def Let_def)

lemma init_fields:
  assumes "init R infile urandom clen0 ilen0 dlen0 seed0 = Inr g"
  shows "dat g = infile" "ins g = urandom" "clen g = clen0"
    "ilen g = (case ilen0 of None \<Rightarrow> clen0 | Some i \<Rightarrow> i)"
    "dlen g = (case dlen0 of None \<Rightarrow> clen0 | Some d \<Rightarrow> d)"
    "seed g = seed0" "cpystats g = Sample_new" "insstats g = Sample_new"
    "delstats g = Sample_new" "1 \<le> cpy_n g"
  using assms by (auto simp: init_def Let_def reset_def initcycle_cpy_n split: if_splits)

lemma gen1_init: "init random1 infile urandom 4 None None 1 = Inr (gen1 infile urandom)"
  by (simp add: gen1_def init_def)

lemmas example_defs = gen1_def gen1_no_ins_def gen1_no_del_def gen1_at_end_def init_def reset_def
  initcycle_def random1_def draws1_def Sample_new_def getdata_def read_def recorded_def
  add_def dat1_def

lemma gen1_no_ins_init:
  "init random1 infile urandom 4 (Some 0) None 1 = Inr (gen1_no_ins infile urandom)"
  by (simp add: gen1_no_ins_def init_def)

lemma gen1_no_del_init:
  "init random1 infile urandom 4 None (Some 0) 1 = Inr (gen1_no_del infile urandom)"
  by (simp add: gen1_no_del_def init_def)

lemma getdata_cpy_n: "1 \<le> cpy_n g \<Longrightarrow> 1 \<le> cpy_n (snd (getdata R g))"
  by (auto simp: getdata_def initcycle_cpy_n split: prod.splits)

lemma calls_cpy_n: "1 \<le> cpy_n g \<Longrightarrow> 1 \<le> cpy_n (calls R n g)"
  by (induction n arbitrary: g) (simp_all add: getdata_cpy_n)

section \<open>The end of the stream\<close>

text \<open>
  Claim C4. Once \<^verbatim>\<open>getdata\<close> has returned an empty result, every later call returns an
  empty result as well and leaves the whole generator as it is: no statistics
  accumulator changes and the pending lengths of the cycle are not drawn again.
\<close>

theorem getdata_end_of_stream_idempotent:
  assumes "fst (getdata R g) = []"
  shows "snd (getdata R g) = g \<and> (\<forall>n. calls R n g = g \<and> getdata R (calls R n g) = ([], g))"
proof -
  have same: "snd (getdata R g) = g" using assms by (rule getdata_empty)
  have "getdata R g = ([], g)" using assms same by (simp add: prod_eq_iff)
  with same show ?thesis by (simp add: calls_fixed)
qed

theorem getdata_end_of_stream_idempotent_witness:
  "fst (getdata random1 (gen1 [] [])) = [] \<and> snd (getdata random1 (gen1 [] [])) = gen1 [] []
   \<and> calls random1 3 (gen1 [] []) = gen1 [] []"
proof -
  have h: "fst (getdata random1 (gen1 [] [])) = []"
    by (simp add: getdata_def read_def gen1_def init_def reset_def initcycle_def
        random1_def draws1_def Sample_new_def)
  from getdata_end_of_stream_idempotent [OF h] h show ?thesis by simp
qed

section \<open>Progress\<close>

text \<open>
  Every call that returns data consumes at least one byte of the original, so at most
  as many calls return data as the original has bytes.
\<close>

lemma reaches_end: "\<exists>n\<le>length (dat g). fst (getdata R (calls R n g)) = []"
proof (induction "length (dat g)" arbitrary: g rule: less_induct)
  case less
  show ?case
  proof (cases "fst (getdata R g) = []")
    case True
    then have "fst (getdata R (calls R 0 g)) = []" by simp
    then show ?thesis by blast
  next
    case False
    let ?g = "snd (getdata R g)"
    from False have shorter: "length (dat ?g) < length (dat g)" by (rule getdata_advances)
    from less [OF shorter] obtain n where
      n: "n \<le> length (dat ?g)" "fst (getdata R (calls R n ?g)) = []" by blast
    from n shorter have "Suc n \<le> length (dat g)" "fst (getdata R (calls R (Suc n) g)) = []"
      by simp_all
    then show ?thesis by blast
  qed
qed

text \<open>Calls with exceptions: the first exception stays, and without one the calls are \<open>calls\<close>.\<close>

lemma calls_checked_back:
  "calls_checked lim R (Suc n) g =
     (case calls_checked lim R n g of
        Inl e \<Rightarrow> Inl e
      | Inr g' \<Rightarrow> (case getdata_checked lim R g' of Inl e \<Rightarrow> Inl e | Inr (d, g'') \<Rightarrow> Inr g''))"
proof (induction n arbitrary: g)
  case 0
  show ?case by (simp split: sum.splits)
next
  case (Suc n)
  show ?case
  proof (cases "getdata_checked lim R g")
    case (Inl e)
    then show ?thesis by simp
  next
    case (Inr p)
    obtain d g' where p: "p = (d, g')" by (cases p)
    have "calls_checked lim R (Suc (Suc n)) g = calls_checked lim R (Suc n) g'"
      using Inr p by simp
    also have "\<dots> = (case calls_checked lim R n g' of
        Inl e \<Rightarrow> Inl e
      | Inr h \<Rightarrow> (case getdata_checked lim R h of Inl e \<Rightarrow> Inl e | Inr (d, h') \<Rightarrow> Inr h'))"
      by (rule Suc.IH)
    also have "calls_checked lim R n g' = calls_checked lim R (Suc n) g"
      using Inr p by simp
    finally show ?thesis .
  qed
qed

lemma getdata_checked_cases:
  "getdata_checked lim R g = Inr p \<Longrightarrow> p = getdata R g \<and> getdata_raises lim g = None"
  by (simp add: getdata_checked_def split: option.splits)

lemma calls_checked_Inr: "calls_checked lim R n g = Inr g' \<Longrightarrow> g' = calls R n g"
proof (induction n arbitrary: g g')
  case 0
  then show ?case by simp
next
  case (Suc n)
  then obtain h where h: "calls_checked lim R n g = Inr h"
    by (auto simp only: calls_checked_back split: sum.splits)
  then have hk: "h = calls R n g" by (rule Suc.IH)
  from Suc.prems h obtain d where "getdata_checked lim R h = Inr (d, g')"
    by (auto simp only: calls_checked_back split: sum.splits prod.splits)
  then have "(d, g') = getdata R h" using getdata_checked_cases by blast
  then have "g' = snd (getdata R h)" by (simp add: prod_eq_iff)
  then show ?case using hk by (simp only: calls_Suc_back)
qed

lemma calls_checked_no_raise:
  "\<forall>k<n. getdata_raises lim (calls R k g) = None \<Longrightarrow> calls_checked lim R n g = Inr (calls R n g)"
proof (induction n)
  case 0
  show ?case by simp
next
  case (Suc n)
  then have ih: "calls_checked lim R n g = Inr (calls R n g)" by simp
  from Suc.prems have "getdata_raises lim (calls R n g) = None" by simp
  then have "getdata_checked lim R (calls R n g) = Inr (getdata R (calls R n g))"
    by (simp add: getdata_checked_def)
  then show ?case
    by (simp only: calls_checked_back ih calls_Suc_back) (simp split: prod.splits)
qed

lemma ends_or_raises:
  "\<exists>n\<le>length (dat g).
     (\<exists>e. calls_checked lim R (Suc n) g = Inl e)
     \<or> (calls_checked lim R n g = Inr (calls R n g)
         \<and> getdata_checked lim R (calls R n g) = Inr ([], calls R n g))"
proof -
  obtain n where n: "n \<le> length (dat g)" "fst (getdata R (calls R n g)) = []"
    using reaches_end by blast
  let ?h = "calls R n g"
  have e: "getdata R ?h = ([], ?h)"
    using n(2) getdata_empty [OF n(2)] by (simp add: prod_eq_iff)
  show ?thesis
  proof (cases "calls_checked lim R n g")
    case (Inl e)
    then have "calls_checked lim R (Suc n) g = Inl e" by (simp only: calls_checked_back) simp
    with n(1) show ?thesis by blast
  next
    case (Inr h)
    then have h: "h = ?h" by (rule calls_checked_Inr)
    show ?thesis
    proof (cases "getdata_raises lim ?h")
      case None
      then have "getdata_checked lim R ?h = Inr ([], ?h)" by (simp add: getdata_checked_def e)
      with Inr h n(1) show ?thesis by blast
    next
      case (Some x)
      then have "getdata_checked lim R ?h = Inl x" by (simp add: getdata_checked_def)
      with Inr h have "calls_checked lim R (Suc n) g = Inl x"
        by (simp only: calls_checked_back) simp
      with n(1) show ?thesis by blast
    qed
  qed
qed

text \<open>
  Claim C3 says that for every copy mean greater than zero and every finite original that
  is not empty, repeated calls of \<^verbatim>\<open>getdata\<close> reach the empty result. For the copy mean
  \<open>10\<^sup>4\<^sup>0\<^sup>0\<close> the constructor raises \<^verbatim>\<open>OverflowError\<close> at \<^verbatim>\<open>1.0/clen\<close>, and for the copy mean
  \<open>10\<^sup>2\<^sup>0\<close> and the seed 1 the first copy length is 14429106410950920192, for which the
  first read raises \<^verbatim>\<open>OverflowError\<close>: in both runs no call returns the empty result.
\<close>

theorem copy_mean_out_of_range_counterexample:
  "init random1 dat1 [] (10 ^ 400) None None 1 = Inl OverflowError
   \<and> init random1 dat1 [] (10 ^ 20) (Some 0) (Some 0) 1 = Inr (gen1_huge dat1 [])
   \<and> cpy_n (gen1_huge dat1 []) = 14429106410950920192
   \<and> getdata_checked (2 ^ 40) random1 (gen1_huge dat1 []) = Inl OverflowError
   \<and> calls_checked (2 ^ 40) random1 1 (gen1_huge dat1 []) = Inl OverflowError"
proof -
  have i: "init random1 dat1 [] (10 ^ 20) (Some 0) (Some 0) 1 = Inr (gen1_huge dat1 [])"
    by (simp add: gen1_huge_def init_def float_overflow_def)
  have c: "cpy_n (gen1_huge dat1 []) = 14429106410950920192"
    by (simp add: gen1_huge_def init_def float_overflow_def reset_def initcycle_def
        random1_def draws1_def)
  have g: "getdata_checked (2 ^ 40) random1 (gen1_huge dat1 []) = Inl OverflowError"
    by (simp add: getdata_checked_def getdata_raises_def read_raises_def c)
  have o: "init random1 dat1 [] (10 ^ 400) None None 1 = Inl OverflowError"
    by (simp add: init_def float_overflow_def)
  show ?thesis by (simp only: i c g o calls_checked.simps One_nat_def) simp
qed

text \<open>
  Claim C3, amended. For every copy mean greater than zero, with the three means at most
  \<open>4 * 10\<^sup>3\<^sup>0\<^sup>6\<close> in absolute value, and every finite original: the construction succeeds,
  the copy length is at least 1 in every cycle, every call with a result that is not
  empty moves the read position of the original forward, and repeated calls of
  \<^verbatim>\<open>getdata\<close> come to an end within as many calls as the original has bytes and one more:
  a call returns the empty result, unless a call raises an exception before (a read for
  a length that is not in the range of the machine). When no read of these calls raises,
  the empty result is reached.
\<close>

theorem getdata_ends_or_raises:
  assumes "0 < clen0" and "clen0 \<le> 4 * 10 ^ 306"
    and "\<bar>case ilen0 of None \<Rightarrow> clen0 | Some i \<Rightarrow> i\<bar> \<le> 4 * 10 ^ 306"
    and "\<bar>case dlen0 of None \<Rightarrow> clen0 | Some d \<Rightarrow> d\<bar> \<le> 4 * 10 ^ 306"
  shows "\<exists>g. init R infile urandom clen0 ilen0 dlen0 seed0 = Inr g
      \<and> (\<forall>n. 1 \<le> cpy_n (calls R n g))
      \<and> (\<forall>n. fst (getdata R (calls R n g)) \<noteq> [] \<longrightarrow>
             length (dat (calls R (Suc n) g)) < length (dat (calls R n g)))
      \<and> (\<exists>n\<le>length infile.
            (\<exists>e. calls_checked lim R (Suc n) g = Inl e)
            \<or> (calls_checked lim R n g = Inr (calls R n g)
                \<and> getdata_checked lim R (calls R n g) = Inr ([], calls R n g)))
      \<and> ((\<forall>n\<le>length infile. getdata_raises lim (calls R n g) = None) \<longrightarrow>
            (\<exists>n\<le>length infile.
               calls_checked lim R n g = Inr (calls R n g)
               \<and> getdata_checked lim R (calls R n g) = Inr ([], calls R n g)))"
proof -
  have "\<not> float_overflow clen0" using assms(1,2) by (intro float_overflow_small) simp
  then obtain g where g: "init R infile urandom clen0 ilen0 dlen0 seed0 = Inr g"
    using assms init_Inr [of clen0 ilen0 dlen0] float_overflow_small by fastforce
  have d: "dat g = infile" using g by (rule init_fields(1))
  have "\<forall>n. 1 \<le> cpy_n (calls R n g)"
    using init_fields(10) [OF g] by (simp add: calls_cpy_n)
  moreover have "\<forall>n. fst (getdata R (calls R n g)) \<noteq> [] \<longrightarrow>
             length (dat (calls R (Suc n) g)) < length (dat (calls R n g))"
    by (simp only: calls_Suc_back) (simp add: getdata_advances)
  moreover have "\<exists>n\<le>length infile.
            (\<exists>e. calls_checked lim R (Suc n) g = Inl e)
            \<or> (calls_checked lim R n g = Inr (calls R n g)
                \<and> getdata_checked lim R (calls R n g) = Inr ([], calls R n g))"
    using ends_or_raises [of g lim R] by (simp only: d)
  moreover have "(\<forall>n\<le>length infile. getdata_raises lim (calls R n g) = None) \<longrightarrow>
            (\<exists>n\<le>length infile.
               calls_checked lim R n g = Inr (calls R n g)
               \<and> getdata_checked lim R (calls R n g) = Inr ([], calls R n g))"
  proof
    assume ok: "\<forall>n\<le>length infile. getdata_raises lim (calls R n g) = None"
    obtain n where n: "n \<le> length infile" "fst (getdata R (calls R n g)) = []"
      using reaches_end [of g R] by (auto simp only: d)
    have "calls_checked lim R n g = Inr (calls R n g)"
      using ok n(1) by (intro calls_checked_no_raise) simp
    moreover have "getdata_checked lim R (calls R n g) = Inr ([], calls R n g)"
      using ok n getdata_empty [OF n(2)] by (simp add: getdata_checked_def prod_eq_iff)
    ultimately show "\<exists>n\<le>length infile.
               calls_checked lim R n g = Inr (calls R n g)
               \<and> getdata_checked lim R (calls R n g) = Inr ([], calls R n g)"
      using n(1) by blast
  qed
  ultimately show ?thesis using g by blast
qed

theorem getdata_ends_or_raises_witness:
  "(0::int) < 4 \<and> (4::int) \<le> 4 * 10 ^ 306
   \<and> getdata_raises (2 ^ 40) (calls random1 0 (gen1 [1] (replicate 7 0))) = None
   \<and> getdata_raises (2 ^ 40) (calls random1 1 (gen1 [1] (replicate 7 0))) = None
   \<and> (\<exists>n\<le>length [1::byte].
         calls_checked (2 ^ 40) random1 n (gen1 [1] (replicate 7 0))
           = Inr (calls random1 n (gen1 [1] (replicate 7 0)))
         \<and> getdata_checked (2 ^ 40) random1 (calls random1 n (gen1 [1] (replicate 7 0)))
           = Inr ([], calls random1 n (gen1 [1] (replicate 7 0))))"
proof -
  have v: "getdata_raises (2 ^ 40) (calls random1 0 (gen1 [1] (replicate 7 0))) = None"
    "getdata_raises (2 ^ 40) (calls random1 1 (gen1 [1] (replicate 7 0))) = None"
    by (simp_all add: example_defs getdata_raises_def read_raises_def urandom_read_raises_def)
  then have h: "\<forall>n\<le>length [1::byte].
         getdata_raises (2 ^ 40) (calls random1 n (gen1 [1] (replicate 7 0))) = None"
    by (auto simp: le_Suc_eq)
  have b: "(4::int) \<le> 4 * 10 ^ 306" by simp
  from getdata_ends_or_raises [where ?clen0.0 = 4 and ?ilen0.0 = None and ?dlen0.0 = None
      and R = random1 and infile = "[1]" and urandom = "replicate 7 0" and ?seed0.0 = 1
      and lim = "2 ^ 40"] h b v
  show ?thesis by (simp add: gen1_init)
qed

section \<open>Byte accounting\<close>

lemma getdata_stats:
  "sum_s (cpystats (snd (getdata R g))) = sum_s (cpystats g) + sum_list (map fst (recorded g))"
  "sum_s (insstats (snd (getdata R g))) =
     sum_s (insstats g) + sum_list (map (fst \<circ> snd) (recorded g))"
  "sum_s (delstats (snd (getdata R g))) =
     sum_s (delstats g) + sum_list (map (snd \<circ> snd) (recorded g))"
  by (simp_all add: getdata_def recorded_def add_def split: prod.splits)

lemma calls_stats:
  "sum_s (cpystats (calls R n g)) = sum_s (cpystats g) + sum_list (map fst (records R n g))"
  "sum_s (insstats (calls R n g)) =
     sum_s (insstats g) + sum_list (map (fst \<circ> snd) (records R n g))"
  "sum_s (delstats (calls R n g)) =
     sum_s (delstats g) + sum_list (map (snd \<circ> snd) (records R n g))"
  by (induction n arbitrary: g; simp add: getdata_stats)+

lemma getdata_consumed:
  "int (length (dat (snd (getdata R g)))) + sum_list (map fst (recorded g))
     + sum_list (map (snd \<circ> snd) (recorded g)) = int (length (dat g))"
  by (auto simp: getdata_def recorded_def read_def min_def split: prod.splits)

lemma calls_consumed:
  "int (length (dat (calls R n g))) + sum_list (map fst (records R n g))
     + sum_list (map (snd \<circ> snd) (records R n g)) = int (length (dat g))"
proof (induction n arbitrary: g)
  case 0 show ?case by simp
next
  case (Suc n)
  from Suc [of "snd (getdata R g)"] getdata_consumed [of R g] show ?case
    by (simp add: comp_def)
qed

text \<open>
  Claim C2. After construction and any number of calls of \<^verbatim>\<open>getdata\<close>, \<^verbatim>\<open>inp_c\<close> is the
  sum of all recorded copy lengths plus the sum of all recorded delete lengths, and
  \<^verbatim>\<open>tot_c\<close> is the sum of all recorded copy lengths plus the sum of all recorded insert
  lengths, exactly, in integers. (Moreover \<^verbatim>\<open>inp_c\<close> is the number of bytes of the
  original consumed so far.) A recorded triple is (copy, insert, delete).
\<close>

theorem byte_accounting:
  assumes "init R infile urandom clen0 ilen0 dlen0 seed0 = Inr g"
  shows "inp_c (calls R n g) =
           sum_list (map fst (records R n g)) + sum_list (map (snd \<circ> snd) (records R n g))
       \<and> tot_c (calls R n g) =
           sum_list (map fst (records R n g)) + sum_list (map (fst \<circ> snd) (records R n g))
       \<and> inp_c (calls R n g) = int (length infile) - int (length (dat (calls R n g)))"
proof -
  have zero: "sum_s (cpystats g) = 0" "sum_s (insstats g) = 0" "sum_s (delstats g) = 0"
    using init_fields(7-9) [OF assms] by (simp_all add: Sample_new_def)
  have inp: "inp_c (calls R n g) =
           sum_list (map fst (records R n g)) + sum_list (map (snd \<circ> snd) (records R n g))"
    by (simp add: inp_c_def calls_stats zero)
  moreover have "tot_c (calls R n g) =
           sum_list (map fst (records R n g)) + sum_list (map (fst \<circ> snd) (records R n g))"
    by (simp add: tot_c_def calls_stats zero)
  moreover have "inp_c (calls R n g) = int (length infile) - int (length (dat (calls R n g)))"
    using calls_consumed [of R n g] inp init_fields(1) [OF assms] by simp
  ultimately show ?thesis by blast
qed

theorem byte_accounting_witness:
  "init random1 dat1 (replicate 20 7) 4 None None 1 = Inr (gen1 dat1 (replicate 20 7))
   \<and> records random1 2 (gen1 dat1 (replicate 20 7)) = [(1, 7, 5), (1, 2, 2)]
   \<and> inp_c (calls random1 2 (gen1 dat1 (replicate 20 7))) = 1 + 5 + 1 + 2
   \<and> tot_c (calls random1 2 (gen1 dat1 (replicate 20 7))) = 1 + 7 + 1 + 2"
proof -
  have r: "records random1 2 (gen1 dat1 (replicate 20 7)) = [(1, 7, 5), (1, 2, 2)]"
    by (simp add: gen1_def init_def reset_def initcycle_def random1_def draws1_def
        Sample_new_def numeral_2_eq_2 getdata_def read_def recorded_def add_def dat1_def)
  from byte_accounting [OF gen1_init, of 2 dat1 "replicate 20 7"] show ?thesis
    by (simp add: gen1_init r)
qed

section \<open>Disabled phases\<close>

lemma read_suffix: "suffix (snd (read f n)) f"
  by (simp add: read_def suffix_drop)

lemma getdata_no_insert:
  "ins_n g = 0 \<Longrightarrow> fst (getdata R g) = fst (read (dat g) (cpy_n g))"
  "ins_n g = 0 \<Longrightarrow> ins (snd (getdata R g)) = ins g"
  by (simp_all add: getdata_def read_def split: prod.splits)

lemma getdata_dat:
  "dat (snd (getdata R g)) =
     (if fst (read (dat g) (cpy_n g)) = [] then dat g
      else snd (read (snd (read (dat g) (cpy_n g))) (del_n g)))"
  by (auto simp: getdata_def read_def split: prod.splits)

lemma getdata_ins_n: "ilen g = 0 \<Longrightarrow> ins_n g = 0 \<Longrightarrow> ins_n (snd (getdata R g)) = 0"
  by (simp add: getdata_def initcycle_ins_n split: prod.splits)

lemma getdata_del_n: "dlen g = 0 \<Longrightarrow> del_n g = 0 \<Longrightarrow> del_n (snd (getdata R g)) = 0"
  by (simp add: getdata_def initcycle_del_n split: prod.splits)

lemma calls_ins_n: "ilen g = 0 \<Longrightarrow> ins_n g = 0 \<Longrightarrow> ins_n (calls R n g) = 0"
  by (induction n arbitrary: g) (simp_all add: getdata_ins_n)

lemma calls_del_n: "dlen g = 0 \<Longrightarrow> del_n g = 0 \<Longrightarrow> del_n (calls R n g) = 0"
  by (induction n arbitrary: g) (simp_all add: getdata_del_n)

lemma calls_ins: "ilen g = 0 \<Longrightarrow> ins_n g = 0 \<Longrightarrow> ins (calls R n g) = ins g"
  by (induction n arbitrary: g) (simp_all add: getdata_ins_n getdata_no_insert)

lemma recorded_ins: "ins_n g = 0 \<Longrightarrow> \<forall>t\<in>set (recorded g). fst (snd t) = 0"
  by (auto simp: recorded_def split: prod.splits if_splits)

lemma recorded_del: "del_n g = 0 \<Longrightarrow> \<forall>t\<in>set (recorded g). snd (snd t) = 0"
  by (auto simp: recorded_def read_def split: prod.splits if_splits)

lemma records_ins:
  "ilen g = 0 \<Longrightarrow> ins_n g = 0 \<Longrightarrow> \<forall>t\<in>set (records R n g). fst (snd t) = 0"
proof (induction n arbitrary: g)
  case 0
  show ?case by simp
next
  case (Suc n)
  have "\<forall>t\<in>set (recorded g). fst (snd t) = 0" using Suc.prems(2) by (rule recorded_ins)
  moreover have "\<forall>t\<in>set (records R n (snd (getdata R g))). fst (snd t) = 0"
    using Suc.prems by (intro Suc.IH) (simp_all add: getdata_ins_n)
  ultimately show ?case by (simp add: ball_Un)
qed

lemma records_del:
  "dlen g = 0 \<Longrightarrow> del_n g = 0 \<Longrightarrow> \<forall>t\<in>set (records R n g). snd (snd t) = 0"
proof (induction n arbitrary: g)
  case 0
  show ?case by simp
next
  case (Suc n)
  have "\<forall>t\<in>set (recorded g). snd (snd t) = 0" using Suc.prems(2) by (rule recorded_del)
  moreover have "\<forall>t\<in>set (records R n (snd (getdata R g))). snd (snd t) = 0"
    using Suc.prems by (intro Suc.IH) (simp_all add: getdata_del_n)
  ultimately show ?case by (simp add: ball_Un)
qed

lemma getdata_sum2:
  "ins_n g = 0 \<Longrightarrow> sum2_s (insstats (snd (getdata R g))) = sum2_s (insstats g)"
  "ins_n g = 0 \<Longrightarrow> sum_s (insstats (snd (getdata R g))) = sum_s (insstats g)"
  "del_n g = 0 \<Longrightarrow> sum2_s (delstats (snd (getdata R g))) = sum2_s (delstats g)"
  "del_n g = 0 \<Longrightarrow> sum_s (delstats (snd (getdata R g))) = sum_s (delstats g)"
  by (simp_all add: getdata_def add_def read_def split: prod.splits)

lemma calls_insstats:
  "ilen g = 0 \<Longrightarrow> ins_n g = 0 \<Longrightarrow>
     sum_s (insstats (calls R n g)) = sum_s (insstats g) \<and>
     sum2_s (insstats (calls R n g)) = sum2_s (insstats g)"
  by (induction n arbitrary: g) (simp_all add: getdata_ins_n getdata_sum2)

lemma calls_delstats:
  "dlen g = 0 \<Longrightarrow> del_n g = 0 \<Longrightarrow>
     sum_s (delstats (calls R n g)) = sum_s (delstats g) \<and>
     sum2_s (delstats (calls R n g)) = sum2_s (delstats g)"
  by (induction n arbitrary: g) (simp_all add: getdata_del_n getdata_sum2)

lemma chunks_subseq:
  "ilen g = 0 \<Longrightarrow> ins_n g = 0 \<Longrightarrow> subseq (concat (chunks R n g)) (dat g)"
proof (induction n arbitrary: g)
  case 0
  then show ?case by simp
next
  case (Suc n)
  let ?g = "snd (getdata R g)"
  let ?data = "fst (read (dat g) (cpy_n g))"
  let ?rest = "snd (read (dat g) (cpy_n g))"
  from Suc.prems have g': "ilen ?g = 0" "ins_n ?g = 0" by (simp_all add: getdata_ins_n)
  have ih: "subseq (concat (chunks R n ?g)) (dat ?g)" using g' by (rule Suc.IH)
  have chunk: "fst (getdata R g) = ?data" using Suc.prems by (simp add: getdata_no_insert)
  have "subseq (dat ?g) ?rest"
    using read_append [of "dat g" "cpy_n g"] read_suffix [of ?rest "del_n g"]
    by (auto simp: getdata_dat)
  with ih have "subseq (concat (chunks R n ?g)) ?rest" by (rule subseq_order.trans)
  then have "subseq (?data @ concat (chunks R n ?g)) (?data @ ?rest)"
    by (simp only: subseq_append')
  then show ?case by (simp add: chunk read_append)
qed

lemma initcycle_no_insert_draw:
  "ilen g = 0 \<Longrightarrow> initcycle R g =
     (case expovariate R (mod_r g) (clen g) of (c, r1) \<Rightarrow>
      case (if dlen g = 0 then (dlen g, r1) else expovariate R r1 (dlen g)) of (d, r3) \<Rightarrow>
        g\<lparr>mod_r := r3, cpy_n := max 1 c, ins_n := 0, del_n := d\<rparr>)"
  by (simp add: initcycle_def split: prod.splits)

lemma initcycle_no_delete_draw:
  "dlen g = 0 \<Longrightarrow> initcycle R g =
     (case expovariate R (mod_r g) (clen g) of (c, r1) \<Rightarrow>
      case (if ilen g = 0 then (ilen g, r1) else expovariate R r1 (ilen g)) of (i, r2) \<Rightarrow>
        g\<lparr>mod_r := r2, cpy_n := max 1 c, ins_n := i, del_n := 0\<rparr>)"
  by (simp add: initcycle_def split: prod.splits)

lemma init_pending:
  assumes "init R infile urandom clen0 ilen0 dlen0 seed0 = Inr g"
  shows "ilen0 = Some 0 \<Longrightarrow> ins_n g = 0" "dlen0 = Some 0 \<Longrightarrow> del_n g = 0"
  using assms
  by (auto simp: init_def Let_def reset_def initcycle_ins_n initcycle_del_n split: if_splits)

text \<open>
  Claim C8. If the generator is constructed with the insert mean 0, the pending insert
  length is 0 in every cycle and nothing is drawn for it (the generator state after
  \<^verbatim>\<open>initcycle\<close> is the one after the copy draw and the delete draw only), every length
  recorded in \<^verbatim>\<open>insstats\<close> is 0, and the output holds no byte of the randomness source:
  that file is never advanced, every chunk is the copy read, and the output is a
  subsequence of the original. Likewise for the delete mean 0: the pending delete length
  is 0 in every cycle without a draw, every recorded delete length is 0, and no byte of
  the original is skipped.
\<close>

theorem disabled_phase:
  "(init R infile urandom clen0 (Some 0) dlen0 seed0 = Inr g \<longrightarrow>
      ins_n (calls R n g) = 0
    \<and> (\<forall>t\<in>set (records R n g). fst (snd t) = 0)
    \<and> sum_s (insstats (calls R n g)) = 0 \<and> sum2_s (insstats (calls R n g)) = 0
    \<and> ins (calls R n g) = urandom
    \<and> fst (getdata R (calls R n g)) = fst (read (dat (calls R n g)) (cpy_n (calls R n g)))
    \<and> subseq (concat (chunks R n g)) infile
    \<and> initcycle R (calls R n g) =
        (case expovariate R (mod_r (calls R n g)) (clen g) of (c, r1) \<Rightarrow>
         case (if dlen g = 0 then (dlen g, r1) else expovariate R r1 (dlen g)) of (d, r3) \<Rightarrow>
           (calls R n g)\<lparr>mod_r := r3, cpy_n := max 1 c, ins_n := 0, del_n := d\<rparr>))
   \<and> (init R infile urandom clen0 ilen0 (Some 0) seed0 = Inr g \<longrightarrow>
      del_n (calls R n g) = 0
    \<and> (\<forall>t\<in>set (records R n g). snd (snd t) = 0)
    \<and> sum_s (delstats (calls R n g)) = 0 \<and> sum2_s (delstats (calls R n g)) = 0
    \<and> dat (snd (getdata R (calls R n g))) =
        snd (read (dat (calls R n g)) (cpy_n (calls R n g)))
    \<and> initcycle R (calls R n g) =
        (case expovariate R (mod_r (calls R n g)) (clen g) of (c, r1) \<Rightarrow>
         case (if ilen g = 0 then (ilen g, r1) else expovariate R r1 (ilen g)) of (i, r2) \<Rightarrow>
           (calls R n g)\<lparr>mod_r := r2, cpy_n := max 1 c, ins_n := i, del_n := 0\<rparr>))"
proof (intro conjI impI)
  assume g: "init R infile urandom clen0 (Some 0) dlen0 seed0 = Inr g"
  have i: "ilen g = 0" "ins_n g = 0"
    using init_fields(4) [OF g] init_pending(1) [OF g] by simp_all
  show "ins_n (calls R n g) = 0" using i by (rule calls_ins_n)
  then show "fst (getdata R (calls R n g)) = fst (read (dat (calls R n g)) (cpy_n (calls R n g)))"
    by (rule getdata_no_insert)
  show "\<forall>t\<in>set (records R n g). fst (snd t) = 0" using i by (rule records_ins)
  show "sum_s (insstats (calls R n g)) = 0" "sum2_s (insstats (calls R n g)) = 0"
    using calls_insstats [OF i, of R n] init_fields(8) [OF g] by (simp_all add: Sample_new_def)
  show "ins (calls R n g) = urandom" using calls_ins [OF i, of R n] init_fields(2) [OF g] by simp
  show "subseq (concat (chunks R n g)) infile"
    using chunks_subseq [OF i, of R n] init_fields(1) [OF g] by simp
  show "initcycle R (calls R n g) =
        (case expovariate R (mod_r (calls R n g)) (clen g) of (c, r1) \<Rightarrow>
         case (if dlen g = 0 then (dlen g, r1) else expovariate R r1 (dlen g)) of (d, r3) \<Rightarrow>
           (calls R n g)\<lparr>mod_r := r3, cpy_n := max 1 c, ins_n := 0, del_n := d\<rparr>)"
    using initcycle_no_insert_draw [of "calls R n g" R] i by (simp cong: if_cong)
next
  assume g: "init R infile urandom clen0 ilen0 (Some 0) seed0 = Inr g"
  have d: "dlen g = 0" "del_n g = 0"
    using init_fields(5) [OF g] init_pending(2) [OF g] by simp_all
  show dn: "del_n (calls R n g) = 0" using d by (rule calls_del_n)
  show "\<forall>t\<in>set (records R n g). snd (snd t) = 0" using d by (rule records_del)
  show "sum_s (delstats (calls R n g)) = 0" "sum2_s (delstats (calls R n g)) = 0"
    using calls_delstats [OF d, of R n] init_fields(9) [OF g] by (simp_all add: Sample_new_def)
  show "dat (snd (getdata R (calls R n g))) =
        snd (read (dat (calls R n g)) (cpy_n (calls R n g)))"
    using dn by (auto simp: getdata_dat read_def)
  show "initcycle R (calls R n g) =
        (case expovariate R (mod_r (calls R n g)) (clen g) of (c, r1) \<Rightarrow>
         case (if ilen g = 0 then (ilen g, r1) else expovariate R r1 (ilen g)) of (i, r2) \<Rightarrow>
           (calls R n g)\<lparr>mod_r := r2, cpy_n := max 1 c, ins_n := i, del_n := 0\<rparr>)"
    using initcycle_no_delete_draw [of "calls R n g" R] d by (simp cong: if_cong)
qed

theorem disabled_phase_witness:
  "init random1 dat1 [9, 9] 4 (Some 0) None 1 = Inr (gen1_no_ins dat1 [9, 9])
   \<and> ins_n (calls random1 2 (gen1_no_ins dat1 [9, 9])) = 0
   \<and> ins (calls random1 2 (gen1_no_ins dat1 [9, 9])) = [9, 9]
   \<and> chunks random1 2 (gen1_no_ins dat1 [9, 9]) = [[1], [9, 10]]
   \<and> subseq (concat (chunks random1 2 (gen1_no_ins dat1 [9, 9]))) dat1
   \<and> init random1 dat1 [9, 9] 4 None (Some 0) 1 = Inr (gen1_no_del dat1 [9, 9])
   \<and> del_n (calls random1 2 (gen1_no_del dat1 [9, 9])) = 0
   \<and> sum_s (delstats (calls random1 2 (gen1_no_del dat1 [9, 9]))) = 0"
proof -
  have c: "chunks random1 2 (gen1_no_ins dat1 [9, 9]) = [[1], [9, 10]]"
    by (simp add: example_defs numeral_2_eq_2)
  from disabled_phase [of random1 dat1 "[9, 9]" 4 None 1 "gen1_no_ins dat1 [9, 9]" 2 None]
    disabled_phase [of random1 dat1 "[9, 9]" 4 None 1 "gen1_no_del dat1 [9, 9]" 2 None]
  show ?thesis
    by (simp add: gen1_no_ins_init gen1_no_del_init c)
qed

section \<open>The cycle at the end of the original\<close>

text \<open>
  Claim C10. Whenever the copy read returns at least one byte, \<^verbatim>\<open>getdata\<close> completes the
  whole cycle. In particular, when the copy read is cut short by the end of the original
  (and the randomness source has the bytes asked for), the call still appends \<^verbatim>\<open>ins_n\<close>
  bytes of the randomness source to the chunk, still does the delete read and records 0
  skipped bytes, and still draws the lengths of the next cycle; so the last chunk of a
  run that is not empty may end with inserted bytes after the last byte of the original.
  The call after it returns the empty result.
\<close>

theorem getdata_completes_cycle_at_eof:
  "(fst (read (dat g) (cpy_n g)) \<noteq> [] \<longrightarrow>
      getdata R g =
        (fst (read (dat g) (cpy_n g)) @ fst (read (ins g) (ins_n g)),
         initcycle R (g\<lparr>dat := snd (read (snd (read (dat g) (cpy_n g))) (del_n g)),
                        ins := snd (read (ins g) (ins_n g)),
                        cpystats := add (cpystats g) (int (length (fst (read (dat g) (cpy_n g))))),
                        insstats := add (insstats g) (ins_n g),
                        delstats := add (delstats g)
                          (int (length (fst (read (snd (read (dat g) (cpy_n g))) (del_n g)))))\<rparr>)))
   \<and> (dat g \<noteq> [] \<and> int (length (dat g)) \<le> cpy_n g \<and> 0 \<le> ins_n g
        \<and> nat (ins_n g) \<le> length (ins g) \<longrightarrow>
      getdata R g =
        (dat g @ take (nat (ins_n g)) (ins g),
         initcycle R (g\<lparr>dat := [], ins := drop (nat (ins_n g)) (ins g),
                        cpystats := add (cpystats g) (int (length (dat g))),
                        insstats := add (insstats g) (ins_n g),
                        delstats := add (delstats g) 0\<rparr>))
      \<and> length (fst (getdata R g)) = length (dat g) + nat (ins_n g)
      \<and> fst (getdata R (snd (getdata R g))) = [])"
proof (intro conjI impI)
  assume "fst (read (dat g) (cpy_n g)) \<noteq> []"
  then show "getdata R g =
        (fst (read (dat g) (cpy_n g)) @ fst (read (ins g) (ins_n g)),
         initcycle R (g\<lparr>dat := snd (read (snd (read (dat g) (cpy_n g))) (del_n g)),
                        ins := snd (read (ins g) (ins_n g)),
                        cpystats := add (cpystats g) (int (length (fst (read (dat g) (cpy_n g))))),
                        insstats := add (insstats g) (ins_n g),
                        delstats := add (delstats g)
                          (int (length (fst (read (snd (read (dat g) (cpy_n g))) (del_n g)))))\<rparr>))"
    by (auto simp: getdata_def split: prod.splits)
next
  assume a: "dat g \<noteq> [] \<and> int (length (dat g)) \<le> cpy_n g \<and> 0 \<le> ins_n g
        \<and> nat (ins_n g) \<le> length (ins g)"
  then have whole: "read (dat g) (cpy_n g) = (dat g, [])" by (auto simp: read_def)
  have nothing: "read [] (del_n g) = ([], [])" by (simp add: read_def)
  have rnd: "read (ins g) (ins_n g) = (take (nat (ins_n g)) (ins g), drop (nat (ins_n g)) (ins g))"
    using a by (simp add: read_def)
  show eq: "getdata R g =
        (dat g @ take (nat (ins_n g)) (ins g),
         initcycle R (g\<lparr>dat := [], ins := drop (nat (ins_n g)) (ins g),
                        cpystats := add (cpystats g) (int (length (dat g))),
                        insstats := add (insstats g) (ins_n g),
                        delstats := add (delstats g) 0\<rparr>))"
    using a by (simp add: getdata_def whole rnd) (simp add: read_def)
  show "length (fst (getdata R g)) = length (dat g) + nat (ins_n g)"
    using a by (simp add: eq)
  show "fst (getdata R (snd (getdata R g))) = []"
    by (simp add: eq getdata_empty_iff read_empty_iff)
qed

theorem getdata_completes_cycle_at_eof_witness:
  "fst (read (dat (gen1_at_end (replicate 20 7))) (cpy_n (gen1_at_end (replicate 20 7)))) \<noteq> []
   \<and> dat (gen1_at_end (replicate 20 7)) = [10] \<and> cpy_n (gen1_at_end (replicate 20 7)) = 4
   \<and> ins_n (gen1_at_end (replicate 20 7)) = 6
   \<and> nat (ins_n (gen1_at_end (replicate 20 7))) \<le> length (ins (gen1_at_end (replicate 20 7)))
   \<and> fst (getdata random1 (gen1_at_end (replicate 20 7))) = [10] @ replicate 6 7
   \<and> length (fst (getdata random1 (gen1_at_end (replicate 20 7)))) = 1 + 6"
proof -
  have v: "dat (gen1_at_end (replicate 20 7)) = [10]" "cpy_n (gen1_at_end (replicate 20 7)) = 4"
    "ins_n (gen1_at_end (replicate 20 7)) = 6"
    "ins (gen1_at_end (replicate 20 7)) = replicate 11 7"
    by (simp_all add: example_defs numeral_2_eq_2)
  from getdata_completes_cycle_at_eof [of "gen1_at_end (replicate 20 7)" random1]
  show ?thesis by (simp add: v read_def)
qed

section \<open>Determinism\<close>

text \<open>
  Claim C1 says that for a fixed seed, fixed means and fixed original content two
  independent runs produce byte-identical output. The inserted bytes are read from
  /dev/urandom, not drawn from the seeded generator: with the seed 1, the means 4 and the
  ten bytes \<open>dat1\<close>, a run in which /dev/urandom delivers zeros and a run in which it
  delivers the bytes 255 differ in 15 of the 18 bytes of the output.
\<close>

theorem output_depends_on_urandom_counterexample:
  "map_sum id fst (run random1 dat1 (replicate 15 0) 4 None None 1)
     = Inr ([1] @ replicate 7 0 @ [7] @ replicate 2 0 @ [10] @ replicate 6 0)
   \<and> map_sum id fst (run random1 dat1 (replicate 15 255) 4 None None 1)
     = Inr ([1] @ replicate 7 255 @ [7] @ replicate 2 255 @ [10] @ replicate 6 255)
   \<and> map_sum id fst (run random1 dat1 (replicate 15 0) 4 None None 1)
     \<noteq> map_sum id fst (run random1 dat1 (replicate 15 255) 4 None None 1)"
  by (simp add: run_def gen1_init drive.simps example_defs)

text \<open>
  What does not depend on the bytes of the randomness source: two generators that differ
  only in these bytes differ only in them after a call, and return the empty result
  together.
\<close>

lemma ins_update_eq: "h\<lparr>ins := []\<rparr> = k\<lparr>ins := []\<rparr> \<Longrightarrow> h = k\<lparr>ins := ins h\<rparr>"
proof -
  assume "h\<lparr>ins := []\<rparr> = k\<lparr>ins := []\<rparr>"
  then have "(h\<lparr>ins := []\<rparr>)\<lparr>ins := ins h\<rparr> = (k\<lparr>ins := []\<rparr>)\<lparr>ins := ins h\<rparr>" by simp
  then show ?thesis by simp
qed

lemma getdata_ins_indep:
  "(snd (getdata R (g\<lparr>ins := u\<rparr>)))\<lparr>ins := []\<rparr> = (snd (getdata R g))\<lparr>ins := []\<rparr>"
  by (simp add: getdata_def initcycle_def split: prod.splits)

lemma getdata_empty_ins_indep:
  "fst (getdata R (g\<lparr>ins := u\<rparr>)) = [] \<longleftrightarrow> fst (getdata R g) = []"
  by (simp add: getdata_empty_iff)

lemma calls_ins_indep:
  "(calls R n (g\<lparr>ins := u\<rparr>))\<lparr>ins := []\<rparr> = (calls R n g)\<lparr>ins := []\<rparr>"
proof (induction n arbitrary: g u)
  case 0
  show ?case by simp
next
  case (Suc n)
  let ?h = "snd (getdata R (g\<lparr>ins := u\<rparr>))"
  let ?k = "snd (getdata R g)"
  have "?h = ?k\<lparr>ins := ins ?h\<rparr>" by (rule ins_update_eq) (rule getdata_ins_indep)
  then have "calls R n ?h = calls R n (?k\<lparr>ins := ins ?h\<rparr>)" by simp
  then show ?case by (simp add: Suc.IH)
qed

lemma drive_ins_indep:
  "(snd (drive R (g\<lparr>ins := u\<rparr>) out'))\<lparr>ins := []\<rparr> = (snd (drive R g out))\<lparr>ins := []\<rparr>"
proof (induction R g out arbitrary: u out' rule: drive.induct)
  case (1 R g out)
  let ?h = "snd (getdata R (g\<lparr>ins := u\<rparr>))"
  let ?k = "snd (getdata R g)"
  show ?case
  proof (cases "fst (getdata R g) = []")
    case True
    then have "fst (getdata R (g\<lparr>ins := u\<rparr>)) = []" by (simp add: getdata_empty_ins_indep)
    with True show ?thesis
      by (simp add: drive.simps [of R g] drive.simps [of R "g\<lparr>ins := u\<rparr>"] getdata_ins_indep)
  next
    case False
    then have ne: "fst (getdata R (g\<lparr>ins := u\<rparr>)) \<noteq> []" by (simp add: getdata_empty_ins_indep)
    have h: "?h = ?k\<lparr>ins := ins ?h\<rparr>" by (rule ins_update_eq) (rule getdata_ins_indep)
    have "(snd (drive R (?k\<lparr>ins := ins ?h\<rparr>) (out' @ fst (getdata R (g\<lparr>ins := u\<rparr>)))))\<lparr>ins := []\<rparr>
        = (snd (drive R ?k (out @ fst (getdata R g))))\<lparr>ins := []\<rparr>"
      using False by (rule "1.IH")
    with h have "(snd (drive R ?h (out' @ fst (getdata R (g\<lparr>ins := u\<rparr>)))))\<lparr>ins := []\<rparr>
        = (snd (drive R ?k (out @ fst (getdata R g))))\<lparr>ins := []\<rparr>" by simp
    with False ne show ?thesis
      by (simp add: drive.simps [of R g] drive.simps [of R "g\<lparr>ins := u\<rparr>"])
  qed
qed

lemma init_ins_indep:
  assumes "init R infile u1 c i d s = Inr g1" and "init R infile u2 c i d s = Inr g2"
  shows "g1 = g2\<lparr>ins := u1\<rparr>"
  using assms by (auto simp: init_def Let_def reset_def initcycle_def split: if_splits prod.splits)

lemma reset_is_init:
  "clen h \<noteq> 0 \<Longrightarrow> \<not> float_overflow (clen h) \<Longrightarrow> \<not> float_overflow (ilen h) \<Longrightarrow>
   \<not> float_overflow (dlen h) \<Longrightarrow>
     init R (dat h) (ins h) (clen h) (Some (ilen h)) (Some (dlen h)) (seed h) = Inr (reset R h)"
  by (cases h) (simp add: init_def reset_def initcycle_def split: prod.splits)

lemma getdata_out_no_ins:
  "ins_n g = 0 \<Longrightarrow> fst (getdata R (g\<lparr>ins := u\<rparr>)) = fst (getdata R g)"
  by (simp add: getdata_no_insert)

lemma drive_out_no_ins:
  "ilen g = 0 \<Longrightarrow> ins_n g = 0 \<Longrightarrow> fst (drive R (g\<lparr>ins := u\<rparr>) out) = fst (drive R g out)"
proof (induction R g out arbitrary: u rule: drive.induct)
  case (1 R g out)
  let ?h = "snd (getdata R (g\<lparr>ins := u\<rparr>))"
  let ?k = "snd (getdata R g)"
  have same: "fst (getdata R (g\<lparr>ins := u\<rparr>)) = fst (getdata R g)"
    using "1.prems"(2) by (rule getdata_out_no_ins)
  show ?case
  proof (cases "fst (getdata R g) = []")
    case True
    with same show ?thesis
      by (simp add: drive.simps [of R g] drive.simps [of R "g\<lparr>ins := u\<rparr>"])
  next
    case False
    have h: "?h = ?k\<lparr>ins := ins ?h\<rparr>" by (rule ins_update_eq) (rule getdata_ins_indep)
    have k: "ilen ?k = 0" "ins_n ?k = 0" using "1.prems" by (simp_all add: getdata_ins_n)
    have "fst (drive R (?k\<lparr>ins := ins ?h\<rparr>) (out @ fst (getdata R g)))
        = fst (drive R ?k (out @ fst (getdata R g)))"
      using False k by (rule "1.IH")
    with h have "fst (drive R ?h (out @ fst (getdata R g)))
        = fst (drive R ?k (out @ fst (getdata R g)))" by simp
    with False same show ?thesis
      by (simp add: drive.simps [of R g] drive.simps [of R "g\<lparr>ins := u\<rparr>"])
  qed
qed

text \<open>What a chunk is made of, and the output of the main loop as the chunks of the calls.\<close>

lemma getdata_chunk:
  "fst (getdata R h) =
     fst (read (dat h) (cpy_n h))
     @ (if fst (getdata R h) = [] then [] else fst (read (ins h) (ins_n h)))"
  by (auto simp: getdata_def split: prod.splits)

lemma getdata_ins_rest:
  "ins (snd (getdata R h)) =
     (if fst (getdata R h) = [] then ins h else snd (read (ins h) (ins_n h)))"
  by (auto simp: getdata_def split: prod.splits)

lemma chunks_map: "chunks R n g = map (\<lambda>k. fst (getdata R (calls R k g))) [0..<n]"
proof (induction n arbitrary: g)
  case 0
  show ?case by simp
next
  case (Suc n)
  have "map (\<lambda>k. fst (getdata R (calls R k g))) [0..<Suc n]
      = fst (getdata R g) # map (\<lambda>k. fst (getdata R (calls R (Suc k) g))) [0..<n]"
    by (simp only: map_upt_Suc) simp
  then show ?case by (simp add: Suc.IH)
qed

lemma chunks_fixed: "fst (getdata R g) = [] \<Longrightarrow> concat (chunks R m g) = []"
  by (induction m) (simp_all add: getdata_empty)

lemma drive_chunks:
  "fst (getdata R (calls R m g)) = [] \<Longrightarrow>
     drive R g out = (out @ concat (chunks R m g), calls R m g)"
proof (induction m arbitrary: g out)
  case 0
  then show ?case by (simp add: drive.simps [of R g] getdata_empty)
next
  case (Suc m)
  show ?case
  proof (cases "fst (getdata R g) = []")
    case True
    then have "snd (getdata R g) = g" by (rule getdata_empty)
    with True show ?thesis
      by (simp add: drive.simps [of R g] calls_fixed chunks_fixed)
  next
    case False
    from Suc.prems have "fst (getdata R (calls R m (snd (getdata R g)))) = []" by simp
    then have "drive R (snd (getdata R g)) (out @ fst (getdata R g))
        = ((out @ fst (getdata R g)) @ concat (chunks R m (snd (getdata R g))),
           calls R m (snd (getdata R g)))"
      by (rule Suc.IH)
    with False show ?thesis by (simp add: drive.simps [of R g])
  qed
qed

lemma same_but_ins:
  assumes "h1\<lparr>ins := []\<rparr> = h2\<lparr>ins := []\<rparr>"
  shows "dat h1 = dat h2" "cpy_n h1 = cpy_n h2" "ins_n h1 = ins_n h2"
proof -
  have "dat (h1\<lparr>ins := []\<rparr>) = dat (h2\<lparr>ins := []\<rparr>)"
    "cpy_n (h1\<lparr>ins := []\<rparr>) = cpy_n (h2\<lparr>ins := []\<rparr>)"
    "ins_n (h1\<lparr>ins := []\<rparr>) = ins_n (h2\<lparr>ins := []\<rparr>)"
    using assms by simp_all
  then show "dat h1 = dat h2" "cpy_n h1 = cpy_n h2" "ins_n h1 = ins_n h2" by simp_all
qed

text \<open>
  Claim C1, amended. For a fixed seed, fixed means and fixed original content, two
  independent runs agree, whatever bytes the randomness source delivers, in everything
  but the inserted bytes. After any number of calls the two generators are equal up to
  the rest of the randomness source (the same statistics, pending lengths, state of the
  random generator and rest of the original), and they reach the empty result at the same
  call. The chunk of a call is, in both runs, the same copied bytes, followed by the bytes
  which the insert read with its length, the same in both runs, takes from what is left
  of the randomness source of that run; this source starts as the bytes the device
  delivers and a call leaves of it what the insert read leaves. The output of a run is
  the chunks of its calls one after the other, with the same number of calls in both runs,
  and the final statistics are identical. The output is byte-identical when insertion is
  disabled. \<^verbatim>\<open>reset\<close> puts a generator into exactly the state which the constructor returns
  for its seed, its means and its two files as they stand, so what follows a \<^verbatim>\<open>reset\<close> is
  what follows a construction on these files.
\<close>

theorem seeded_run_determinism:
  assumes "init R infile u1 c i d s = Inr g1" and "init R infile u2 c i d s = Inr g2"
  shows "(calls R n g1)\<lparr>ins := []\<rparr> = (calls R n g2)\<lparr>ins := []\<rparr>
       \<and> (fst (getdata R (calls R n g1)) = [] \<longleftrightarrow> fst (getdata R (calls R n g2)) = [])
       \<and> fst (getdata R (calls R n g1)) =
           fst (read (dat (calls R n g2)) (cpy_n (calls R n g2)))
           @ (if fst (getdata R (calls R n g2)) = [] then []
              else fst (read (ins (calls R n g1)) (ins_n (calls R n g2))))
       \<and> fst (getdata R (calls R n g2)) =
           fst (read (dat (calls R n g2)) (cpy_n (calls R n g2)))
           @ (if fst (getdata R (calls R n g2)) = [] then []
              else fst (read (ins (calls R n g2)) (ins_n (calls R n g2))))
       \<and> ins g1 = u1 \<and> ins g2 = u2
       \<and> ins (calls R (Suc n) g1) =
           (if fst (getdata R (calls R n g2)) = [] then ins (calls R n g1)
            else snd (read (ins (calls R n g1)) (ins_n (calls R n g2))))
       \<and> ins (calls R (Suc n) g2) =
           (if fst (getdata R (calls R n g2)) = [] then ins (calls R n g2)
            else snd (read (ins (calls R n g2)) (ins_n (calls R n g2))))
       \<and> chunks R n g1 = map (\<lambda>k. fst (getdata R (calls R k g1))) [0..<n]
       \<and> chunks R n g2 = map (\<lambda>k. fst (getdata R (calls R k g2))) [0..<n]
       \<and> (\<exists>m\<le>length infile.
             drive R g1 [] = (concat (chunks R m g1), calls R m g1)
           \<and> drive R g2 [] = (concat (chunks R m g2), calls R m g2))
       \<and> (snd (drive R g1 []))\<lparr>ins := []\<rparr> = (snd (drive R g2 []))\<lparr>ins := []\<rparr>
       \<and> (i = Some 0 \<longrightarrow> fst (drive R g1 []) = fst (drive R g2 []))
       \<and> (clen h \<noteq> 0 \<and> \<not> float_overflow (clen h) \<and> \<not> float_overflow (ilen h)
            \<and> \<not> float_overflow (dlen h) \<longrightarrow>
            init R (dat h) (ins h) (clen h) (Some (ilen h)) (Some (dlen h)) (seed h)
              = Inr (reset R h))"
proof -
  let ?h1 = "calls R n g1" and ?h2 = "calls R n g2"
  have g: "g1 = g2\<lparr>ins := u1\<rparr>" using assms by (rule init_ins_indep)
  have c: "?h1\<lparr>ins := []\<rparr> = ?h2\<lparr>ins := []\<rparr>"
    unfolding g by (rule calls_ins_indep)
  have "?h1 = ?h2\<lparr>ins := ins ?h1\<rparr>"
    using c by (rule ins_update_eq)
  then have e: "fst (getdata R ?h1) = [] \<longleftrightarrow> fst (getdata R ?h2) = []"
    using getdata_empty_ins_indep [where R = R and g = "?h2" and u = "ins ?h1"]
    by simp
  note f = same_but_ins [OF c]
  have k1: "fst (getdata R ?h1) =
           fst (read (dat ?h2) (cpy_n ?h2))
           @ (if fst (getdata R ?h2) = [] then []
              else fst (read (ins ?h1) (ins_n ?h2)))"
    using getdata_chunk [of R ?h1] by (simp only: f e)
  have k2: "fst (getdata R ?h2) =
           fst (read (dat ?h2) (cpy_n ?h2))
           @ (if fst (getdata R ?h2) = [] then []
              else fst (read (ins ?h2) (ins_n ?h2)))"
    by (rule getdata_chunk)
  have u: "ins g1 = u1" "ins g2 = u2"
    using init_fields(2) [OF assms(1)] init_fields(2) [OF assms(2)] by simp_all
  have r1: "ins (calls R (Suc n) g1) =
           (if fst (getdata R ?h2) = [] then ins ?h1
            else snd (read (ins ?h1) (ins_n ?h2)))"
    using getdata_ins_rest [of R ?h1] by (simp only: calls_Suc_back f e)
  have r2: "ins (calls R (Suc n) g2) =
           (if fst (getdata R ?h2) = [] then ins ?h2
            else snd (read (ins ?h2) (ins_n ?h2)))"
    using getdata_ins_rest [of R ?h2] by (simp only: calls_Suc_back)
  have m: "\<exists>m\<le>length infile.
             drive R g1 [] = (concat (chunks R m g1), calls R m g1)
           \<and> drive R g2 [] = (concat (chunks R m g2), calls R m g2)"
  proof -
    obtain m where m: "m \<le> length infile" "fst (getdata R (calls R m g2)) = []"
      using reaches_end [of g2 R] init_fields(1) [OF assms(2)] by auto
    have "(calls R m g1)\<lparr>ins := []\<rparr> = (calls R m g2)\<lparr>ins := []\<rparr>"
      unfolding g by (rule calls_ins_indep)
    then have "calls R m g1 = (calls R m g2)\<lparr>ins := ins (calls R m g1)\<rparr>"
      by (rule ins_update_eq)
    then have "fst (getdata R (calls R m g1)) = []"
      using m(2)
        getdata_empty_ins_indep [where R = R and g = "calls R m g2" and u = "ins (calls R m g1)"]
      by simp
    then have "drive R g1 [] = ([] @ concat (chunks R m g1), calls R m g1)"
      by (rule drive_chunks)
    moreover have "drive R g2 [] = ([] @ concat (chunks R m g2), calls R m g2)"
      using m(2) by (rule drive_chunks)
    ultimately show ?thesis using m(1) by auto
  qed
  have dr: "(snd (drive R g1 []))\<lparr>ins := []\<rparr> = (snd (drive R g2 []))\<lparr>ins := []\<rparr>"
    unfolding g by (rule drive_ins_indep)
  have ni: "i = Some 0 \<longrightarrow> fst (drive R g1 []) = fst (drive R g2 [])"
  proof
    assume i: "i = Some 0"
    have "ilen g2 = 0" "ins_n g2 = 0"
      using init_fields(4) [OF assms(2)] init_pending(1) [OF assms(2)] i by simp_all
    then show "fst (drive R g1 []) = fst (drive R g2 [])"
      unfolding g by (rule drive_out_no_ins)
  qed
  have rs: "clen h \<noteq> 0 \<and> \<not> float_overflow (clen h) \<and> \<not> float_overflow (ilen h)
            \<and> \<not> float_overflow (dlen h) \<longrightarrow>
            init R (dat h) (ins h) (clen h) (Some (ilen h)) (Some (dlen h)) (seed h)
              = Inr (reset R h)"
    by (simp add: reset_is_init)
  show ?thesis
    using c e k1 k2 u r1 r2 chunks_map [of R n g1] chunks_map [of R n g2] m dr ni rs
    by (intro conjI)
qed

theorem seeded_run_determinism_witness:
  "init random1 dat1 (replicate 15 0) 4 None None 1 = Inr (gen1 dat1 (replicate 15 0))
   \<and> init random1 dat1 (replicate 15 255) 4 None None 1 = Inr (gen1 dat1 (replicate 15 255))
   \<and> (snd (drive random1 (gen1 dat1 (replicate 15 0)) []))\<lparr>ins := []\<rparr>
       = (snd (drive random1 (gen1 dat1 (replicate 15 255)) []))\<lparr>ins := []\<rparr>
   \<and> fst (getdata random1 (gen1 dat1 (replicate 15 0))) = [1] @ replicate 7 0
   \<and> fst (getdata random1 (gen1 dat1 (replicate 15 255))) = [1] @ replicate 7 255
   \<and> init random1 dat1 [0] 4 (Some 0) None 1 = Inr (gen1_no_ins dat1 [0])
   \<and> init random1 dat1 [255] 4 (Some 0) None 1 = Inr (gen1_no_ins dat1 [255])
   \<and> fst (drive random1 (gen1_no_ins dat1 [0]) []) = fst (drive random1 (gen1_no_ins dat1 [255]) [])
   \<and> clen (gen1 dat1 []) \<noteq> 0
   \<and> init random1 (dat (gen1 dat1 [])) (ins (gen1 dat1 [])) (clen (gen1 dat1 []))
        (Some (ilen (gen1 dat1 []))) (Some (dlen (gen1 dat1 []))) (seed (gen1 dat1 []))
       = Inr (reset random1 (gen1 dat1 []))"
proof -
  have h: "clen (gen1 dat1 []) \<noteq> 0" "\<not> float_overflow (clen (gen1 dat1 []))"
    "\<not> float_overflow (ilen (gen1 dat1 []))" "\<not> float_overflow (dlen (gen1 dat1 []))"
    by (simp_all add: example_defs)
  have v: "fst (getdata random1 (gen1 dat1 (replicate 15 0))) = [1] @ replicate 7 0"
    "fst (getdata random1 (gen1 dat1 (replicate 15 255))) = [1] @ replicate 7 255"
    by (simp_all add: example_defs)
  from seeded_run_determinism [where R = random1 and infile = dat1 and c = 4 and i = None
        and d = None and s = 1
        and ?u1.0 = "replicate 15 0" and ?g1.0 = "gen1 dat1 (replicate 15 0)"
        and ?u2.0 = "replicate 15 255" and ?g2.0 = "gen1 dat1 (replicate 15 255)"
        and n = 0 and h = "gen1 dat1 []"]
    seeded_run_determinism [where R = random1 and infile = dat1 and c = 4 and i = "Some 0"
        and d = None and s = 1
        and ?u1.0 = "[0]" and ?g1.0 = "gen1_no_ins dat1 [0]"
        and ?u2.0 = "[255]" and ?g2.0 = "gen1_no_ins dat1 [255]"
        and n = 0 and h = "gen1 dat1 []"]
    h v
  show ?thesis by (simp add: gen1_init gen1_no_ins_init)
qed

section \<open>The report\<close>

lemmas getlen_eval = getlen_def py_int_def strip_def is_space_def unsigned_def is_digit_def
  digit_val_def

lemma drive_empty: "dat g = [] \<Longrightarrow> drive R g out = (out, g)"
proof -
  assume "dat g = []"
  then have e: "fst (getdata R g) = []" by (simp add: getdata_empty_iff read_empty_iff)
  then have "snd (getdata R g) = g" by (rule getdata_empty)
  with e show ?thesis by (simp add: drive.simps [of R g])
qed

lemma run_empty:
  assumes "init R [] urandom clen0 ilen0 dlen0 seed0 = Inr g"
  shows "run R [] urandom clen0 ilen0 dlen0 seed0 = Inr ([], g) \<and> tot_c g = 0"
proof -
  have "tot_c g = 0"
    using init_fields(7,8) [OF assms] by (simp add: tot_c_def Sample_new_def)
  moreover have "drive R g [] = ([], g)" using init_fields(1) [OF assms] by (rule drive_empty)
  ultimately show ?thesis using assms by (simp add: run_def)
qed

lemma getlen_10: "getlen ''10'' = Inr 10"
  by (simp add: getlen_eval)

text \<open>
  Claim C6 says that the computation of the duplicate ratio is guarded when \<^verbatim>\<open>tot_c\<close> is
  0, so that the report after a run over an empty original does not fail. \<^verbatim>\<open>__str__\<close>
  divides by \<^verbatim>\<open>self.tot_c\<close> without a test: the main program with the argument 10 and an
  empty standard input ends with a \<^verbatim>\<open>ZeroDivisionError\<close>, whatever the random
  generator and /dev/urandom deliver.
\<close>

theorem report_on_empty_original_raises:
  "main R [''modfile.py'', ''10''] [] urandom = Inl ZeroDivisionError"
proof -
  obtain g where "init R [] urandom 10 (Some 10) (Some 10) 1 = Inr g"
    using init_Inr [of 10 "Some 10" "Some 10" R "[]" urandom 1] by auto
  then have "run R [] urandom 10 (Some 10) (Some 10) 1 = Inr ([], g)" "tot_c g = 0"
    using run_empty by blast+
  then show ?thesis by (simp add: main_def getarg_def getlen_10 str_gen_def)
qed

section \<open>The defaults of the constructor\<close>

text \<open>
  Claim C7 says that a delete mean that is not supplied defaults to the insert mean. The
  constructor takes the copy mean instead: with \<open>clen = 100\<close>, \<open>ilen = 50\<close> and no \<open>dlen\<close>
  the delete mean is 100. The main program, whose usage text promises the insert length
  as the default of the delete length, computes that default itself before it calls the
  constructor: the arguments 100 and 50 give the means 100, 50 and 50.
\<close>

theorem constructor_default_dlen_is_clen:
  "map_sum id (\<lambda>g. (clen g, ilen g, dlen g)) (init R infile urandom 100 (Some 50) None seed0)
     = Inr (100, 50, 100)
   \<and> map_sum id (rep_repr \<circ> snd) (main random1 [''modfile.py'', ''100'', ''50''] [65] (replicate 94 7))
     = Inr (100, 50, 50, 1)"
proof -
  have "map_sum id (\<lambda>g. (clen g, ilen g, dlen g)) (init R infile urandom 100 (Some 50) None seed0)
     = Inr (100, 50, 100)"
    by (simp add: init_def reset_def)
  moreover have "getlen ''100'' = Inr 100" "getlen ''50'' = Inr 50"
    by (simp_all add: getlen_eval)
  then have "map_sum id (rep_repr \<circ> snd) (main random1 [''modfile.py'', ''100'', ''50''] [65] (replicate 94 7))
     = Inr (100, 50, 50, 1)"
    by (simp add: main_def getarg_def run_def drive.simps str_gen_def repr_gen_def tot_c_def
      init_def reset_def initcycle_def random1_def draws1_def
      Sample_new_def getdata_def read_def add_def)
  ultimately show ?thesis by blast
qed

section \<open>Length arguments\<close>

lemma digit_not_other:
  assumes "is_digit c"
  shows "\<not> is_space c" "c \<noteq> CHR ''-''" "c \<noteq> CHR ''+''" "c \<noteq> CHR ''_''"
    "c \<notin> set ''kK''" "c \<notin> set ''mM''" "c \<notin> set ''gG''"
  using assms by (auto simp: is_digit_def is_space_def)

lemma digits_decimal:
  "list_all is_digit cs \<Longrightarrow> digits a cs = Inr (a * 10 ^ length cs + decimal cs)"
  by (induction a cs rule: digits.induct) (simp_all add: algebra_simps)

lemma unsigned_decimal:
  "ds \<noteq> [] \<Longrightarrow> list_all is_digit ds \<Longrightarrow> unsigned ds = Inr (decimal ds)"
  by (cases ds) (simp_all add: unsigned_def digits_decimal)

lemma strip_digits:
  assumes "ds \<noteq> []" and "list_all is_digit ds"
  shows "strip ds = ds"
proof -
  from assms have "is_digit (hd ds)" "is_digit (last ds)"
    by (simp_all add: list_all_iff)
  then have "\<not> is_space (hd ds)" "\<not> is_space (hd (rev ds))"
    using assms(1) by (simp_all add: digit_not_other(1) hd_rev)
  then have "dropWhile is_space ds = ds" "dropWhile is_space (rev ds) = rev ds"
    by (simp_all add: dropWhile_eq_self_iff)
  then show ?thesis by (simp add: strip_def)
qed

lemma py_int_decimal:
  assumes "ds \<noteq> []" and "list_all is_digit ds"
  shows "py_int ds = Inr (decimal ds)"
proof -
  from assms obtain c cs where ds: "ds = c # cs" and c: "is_digit c" by (cases ds) auto
  show ?thesis
    using unsigned_decimal [OF assms] digit_not_other(2,3) [OF c]
    by (simp add: py_int_def strip_digits [OF assms]) (simp add: ds)
qed

lemma getlen_suffix:
  assumes "ds \<noteq> []" and "list_all is_digit ds"
  shows "getlen ds = Inr (decimal ds)"
    and "c \<in> set ''kK'' \<Longrightarrow> getlen (ds @ [c]) = Inr (decimal ds * 1024)"
    and "c \<in> set ''mM'' \<Longrightarrow> getlen (ds @ [c]) = Inr (decimal ds * 1024 * 1024)"
    and "c \<in> set ''gG'' \<Longrightarrow> getlen (ds @ [c]) = Inr (decimal ds * 1024 * 1024 * 1024)"
proof -
  from assms have "is_digit (last ds)" by (simp add: list_all_iff)
  then show "getlen ds = Inr (decimal ds)"
    using assms digit_not_other(5-7) [of "last ds"] by (simp add: getlen_def py_int_decimal)
  show "c \<in> set ''kK'' \<Longrightarrow> getlen (ds @ [c]) = Inr (decimal ds * 1024)"
    using assms by (auto simp: getlen_def py_int_decimal)
  show "c \<in> set ''mM'' \<Longrightarrow> getlen (ds @ [c]) = Inr (decimal ds * 1024 * 1024)"
    using assms by (auto simp: getlen_def py_int_decimal)
  show "c \<in> set ''gG'' \<Longrightarrow> getlen (ds @ [c]) = Inr (decimal ds * 1024 * 1024 * 1024)"
    using assms by (auto simp: getlen_def py_int_decimal)
qed


text \<open>
  Claim C9. \<^verbatim>\<open>getlen\<close> maps a string of decimal digits with an optional suffix to a number
  of bytes: a final k or K multiplies the number by 1024, m or M by \<open>1024\<^sup>2\<close>, g or G
  by \<open>1024\<^sup>3\<close>, and without a suffix the result is the number itself. In particular
  10k is 10240, 2m is 2097152, 1g is 1073741824 and 500 is 500.
\<close>

theorem getlen_suffixes:
  assumes "ds \<noteq> []" and "list_all is_digit ds"
  shows "getlen ds = Inr (decimal ds)
       \<and> getlen (ds @ ''k'') = Inr (decimal ds * 1024)
       \<and> getlen (ds @ ''K'') = Inr (decimal ds * 1024)
       \<and> getlen (ds @ ''m'') = Inr (decimal ds * 1024 ^ 2)
       \<and> getlen (ds @ ''M'') = Inr (decimal ds * 1024 ^ 2)
       \<and> getlen (ds @ ''g'') = Inr (decimal ds * 1024 ^ 3)
       \<and> getlen (ds @ ''G'') = Inr (decimal ds * 1024 ^ 3)
       \<and> getlen ''10k'' = Inr 10240 \<and> getlen ''2m'' = Inr 2097152
       \<and> getlen ''1g'' = Inr 1073741824 \<and> getlen ''500'' = Inr 500"
proof -
  have "getlen ''10k'' = Inr 10240" "getlen ''2m'' = Inr 2097152"
    "getlen ''1g'' = Inr 1073741824" "getlen ''500'' = Inr 500"
    by (simp_all add: getlen_eval)
  then show ?thesis
    using getlen_suffix(1) [OF assms] getlen_suffix(2) [OF assms, of "CHR ''k''"]
      getlen_suffix(2) [OF assms, of "CHR ''K''"] getlen_suffix(3) [OF assms, of "CHR ''m''"]
      getlen_suffix(3) [OF assms, of "CHR ''M''"] getlen_suffix(4) [OF assms, of "CHR ''g''"]
      getlen_suffix(4) [OF assms, of "CHR ''G''"]
    by (simp add: power2_eq_square power3_eq_cube)
qed

theorem getlen_suffixes_witness:
  "''64'' \<noteq> [] \<and> list_all is_digit ''64'' \<and> decimal ''64'' = 64
   \<and> getlen ''64'' = Inr 64 \<and> getlen (''64'' @ ''k'') = Inr (64 * 1024)
   \<and> getlen (''64'' @ ''M'') = Inr (64 * 1024 ^ 2) \<and> getlen (''64'' @ ''g'') = Inr (64 * 1024 ^ 3)"
proof -
  have h: "''64'' \<noteq> []" "list_all is_digit ''64''" by (simp_all add: is_digit_def)
  have d: "decimal ''64'' = 64" by (simp add: digit_val_def)
  from getlen_suffixes [OF h] h d show ?thesis by simp
qed

end
